theory Spec2Isabelle
  imports Main "HOL-Library.Sublist"
begin

section \<open>Text\<close>

text \<open>
  A Python \<open>str\<close> is a sequence of Unicode code points. It is modelled as a list of
  natural numbers, one per code point, so that \<open>length\<close> counts what Python's \<open>len\<close>
  counts. The literals of the program are written with \<open>u\<close>, which reads each
  character of an Isabelle string as the code point of the same number (every literal
  of \<^verbatim>\<open>DomPDF.py\<close> lies below U+0100: \<open>CHR 0xF3\<close> is the letter o with acute accent).
\<close>

type_synonym str = "nat list"

definition u :: "string \<Rightarrow> str" where
  "u s = map of_char s"

text \<open>
  The exceptions that the modelled statements can raise: \<open>str.split\<close> with an empty
  separator (ValueError), indexing a list (IndexError), reading a missing dictionary key
  (KeyError), calling \<open>.strip()\<close> on the \<open>None\<close> of an unmatched group (AttributeError),
  asking a match for a group that its pattern does not have (IndexError), and the two
  failures that the docstring of \<open>get_text\<close> names.
\<close>

datatype error =
  ValueError | IndexError | KeyError | AttributeError | FileNotFoundError | FileDataError

definition ebind :: "error + 'a \<Rightarrow> ('a \<Rightarrow> error + 'b) \<Rightarrow> error + 'b" where
  "ebind m f = (case m of Inl e \<Rightarrow> Inl e | Inr x \<Rightarrow> f x)"

text \<open>
  \<open>str.isspace\<close> on one code point. The regular expression class \<open>\s\<close> of a \<open>str\<close>
  pattern and \<open>str.strip()\<close> without argument both use this set.
\<close>

definition isspace :: "nat \<Rightarrow> bool" where
  "isspace c \<longleftrightarrow>
     (9 \<le> c \<and> c \<le> 13) \<or> (28 \<le> c \<and> c \<le> 32) \<or> c = 133 \<or> c = 160 \<or> c = 5760 \<or>
     (8192 \<le> c \<and> c \<le> 8202) \<or> c = 8232 \<or> c = 8233 \<or> c = 8239 \<or> c = 8287 \<or> c = 12288"

text \<open>\<open>s.strip()\<close>: the whitespace at both ends is removed.\<close>

definition strip :: "str \<Rightarrow> str" where
  "strip s = rev (dropWhile isspace (rev (dropWhile isspace s)))"

text \<open>\<open>sub in s\<close>: the scan for an occurrence of \<open>sub\<close>, position by position.\<close>

fun py_in :: "str \<Rightarrow> str \<Rightarrow> bool" where
  "py_in sub [] = (sub = [])"
| "py_in sub (c # cs) = (prefix sub (c # cs) \<or> py_in sub cs)"

text \<open>
  \<open>s.split(sep)\<close> for a separator \<open>a # as\<close>: the text is scanned from the left, \<open>cur\<close> is
  the piece being read; at an occurrence of the separator the piece is closed and the
  scan goes on behind the occurrence. An empty separator raises ValueError.
\<close>

fun split_ne :: "nat \<Rightarrow> str \<Rightarrow> str \<Rightarrow> str \<Rightarrow> str list" where
  "split_ne a as cur [] = [cur]"
| "split_ne a as cur (c # cs) =
     (if prefix (a # as) (c # cs) then cur # split_ne a as [] (drop (length as) cs)
      else split_ne a as (cur @ [c]) cs)"

definition py_split :: "str \<Rightarrow> str \<Rightarrow> error + str list" where
  "py_split s sep = (case sep of [] \<Rightarrow> Inl ValueError | a # as \<Rightarrow> Inr (split_ne a as [] s))"

text \<open>\<open>xs[0]\<close>.\<close>

definition index0 :: "'a list \<Rightarrow> error + 'a" where
  "index0 xs = (case xs of [] \<Rightarrow> Inl IndexError | x # _ \<Rightarrow> Inr x)"

text \<open>
  \<open>s.replace(old, new)\<close>: the occurrences of \<open>old\<close> are found from the left, each one
  behind the end of the one before, and replaced in one pass. With an empty \<open>old\<close>, Python
  puts \<open>new\<close> before every character and at the end.
\<close>

fun replace_ne :: "nat \<Rightarrow> str \<Rightarrow> str \<Rightarrow> str \<Rightarrow> str" where
  "replace_ne a as new [] = []"
| "replace_ne a as new (c # cs) =
     (if prefix (a # as) (c # cs) then new @ replace_ne a as new (drop (length as) cs)
      else c # replace_ne a as new cs)"

definition py_replace :: "str \<Rightarrow> str \<Rightarrow> str \<Rightarrow> str" where
  "py_replace s old new =
     (case old of [] \<Rightarrow> new @ concat (map (\<lambda>c. c # new) s) | a # as \<Rightarrow> replace_ne a as new s)"

section \<open>Normalisation: the first seven statements of \<open>extract_fields\<close>\<close>

definition actividades :: str where
  "actividades = u (''Actividades Econ'' @ [CHR 0xF3] @ ''micas:'')"

definition aviso :: str where
  "aviso = u (''Susdatospersonales sonincorporados yprotegidos enlossistemas delSAT,''
     @ ''deconformidad conlosLineamientos deProtecci'' @ [CHR 0xF3] @ ''n deDatos'')"

definition pagina :: "string \<Rightarrow> str" where
  "pagina n = u (''P'' @ [CHR 0xE1] @ ''gina  [2] de ['' @ n @ '']'')"

text \<open>
  \<^verbatim>\<open>texto = texto.split(actividades)[0]\<close>, \<^verbatim>\<open>texto = texto.split(aviso)[0]\<close>, then the
  five \<^verbatim>\<open>texto = texto.replace(pagina N, '')\<close> for N = 2, 3, 4, 5, 6, where the three
  names stand for the literals of the source (the section heading of the economic
  activities, the sentence of the privacy notice, the page footer).
\<close>

definition normalize :: "str \<Rightarrow> error + str" where
  "normalize texto =
     ebind (ebind (py_split texto actividades) index0) (\<lambda>texto.
     ebind (ebind (py_split texto aviso) index0) (\<lambda>texto.
     let texto = py_replace texto (pagina ''2'') [];
         texto = py_replace texto (pagina ''3'') [];
         texto = py_replace texto (pagina ''4'') [];
         texto = py_replace texto (pagina ''5'') [];
         texto = py_replace texto (pagina ''6'') []
     in Inr texto))"

section \<open>The classifier\<close>

definition marca_fiscal :: str where
  "marca_fiscal = u (''CONSTANCIA DE SITUACI'' @ [CHR 0xD3] @ ''N FISCAL'')"

definition is_fiscal :: "str \<Rightarrow> bool" where
  "is_fiscal texto = py_in marca_fiscal texto"

section \<open>Regular expressions\<close>

text \<open>
  Python's Unicode database is not part of the repository. The two tables of it that the
  program consults are parameters of the model: \<open>str.isalnum\<close> on one code point (the
  class \<open>\w\<close> of a \<open>str\<close> pattern is that set and the underscore) and \<open>str.lower\<close>.
\<close>

record ucd =
  isalnum :: "nat \<Rightarrow> bool"
  lower :: "str \<Rightarrow> str"

text \<open>
  The one-character items of the patterns: a literal character, \<open>\s\<close>, \<open>[\w]\<close>,
  \<open>[^\n]\<close> and the dot (no DOTALL flag: every character but the line feed).
\<close>

datatype atom = Ch nat | Space | Word | NotNL | Dot

fun accepts :: "ucd \<Rightarrow> atom \<Rightarrow> nat \<Rightarrow> bool" where
  "accepts U (Ch a) c = (c = a)"
| "accepts U Space c = isspace c"
| "accepts U Word c = (isalnum U c \<or> c = 95)"
| "accepts U NotNL c = (c \<noteq> 10)"
| "accepts U Dot c = (c \<noteq> 10)"

text \<open>
  The patterns of the catalog use: one item, a greedy \<open>x*\<close> and a lazy \<open>x*?\<close> over a
  one-character item, sequence, a capturing group \<open>(...)\<close> with its number, and the
  greedy \<open>?\<close>.
\<close>

datatype rx = Eps | One atom | Star atom | Lazy atom | Seq rx rx | Grp nat rx | Opt rx

type_synonym caps = "nat \<Rightarrow> str option"

text \<open>
  \<open>ms U p s g\<close> is the backtracking matcher of \<open>re\<close>, started on the text \<open>s\<close> with the
  groups \<open>g\<close>: the list of all ways to match \<open>p\<close> at the start of \<open>s\<close>, each with the text
  that is left and the groups then, in the order in which the matcher tries them (a
  greedy star takes the longest run first, a lazy one the shortest, \<open>?\<close> tries its body
  before it skips it). The matcher returns the first way whose continuation succeeds.
\<close>

fun ms :: "ucd \<Rightarrow> rx \<Rightarrow> str \<Rightarrow> caps \<Rightarrow> (str \<times> caps) list" where
  "ms U Eps s g = [(s, g)]"
| "ms U (One a) [] g = []"
| "ms U (One a) (c # cs) g = (if accepts U a c then [(cs, g)] else [])"
| "ms U (Star a) [] g = [([], g)]"
| "ms U (Star a) (c # cs) g =
     (if accepts U a c then ms U (Star a) cs g @ [(c # cs, g)] else [(c # cs, g)])"
| "ms U (Lazy a) [] g = [([], g)]"
| "ms U (Lazy a) (c # cs) g =
     (c # cs, g) # (if accepts U a c then ms U (Lazy a) cs g else [])"
| "ms U (Seq p q) s g = concat (map (\<lambda>(s', g'). ms U q s' g') (ms U p s g))"
| "ms U (Grp n p) s g =
     map (\<lambda>(s', g'). (s', g'(n \<mapsto> take (length s - length s') s))) (ms U p s g)"
| "ms U (Opt p) s g = ms U p s g @ [(s, g)]"

text \<open>\<open>re.search\<close>: the leftmost start position with a match, and the first match there.\<close>

fun search :: "ucd \<Rightarrow> rx \<Rightarrow> str \<Rightarrow> caps option" where
  "search U p [] = (case ms U p [] (\<lambda>n. None) of [] \<Rightarrow> None | (r, g) # _ \<Rightarrow> Some g)"
| "search U p (c # cs) =
     (case ms U p (c # cs) (\<lambda>n. None) of [] \<Rightarrow> search U p cs | (r, g) # _ \<Rightarrow> Some g)"

fun ngroups :: "rx \<Rightarrow> nat" where
  "ngroups (Seq p q) = ngroups p + ngroups q"
| "ngroups (Grp n p) = Suc (ngroups p)"
| "ngroups (Opt p) = ngroups p"
| "ngroups p = 0"

text \<open>
  A match object: the number of groups of its pattern (the length of \<open>m.groups()\<close>) and
  the text of each group, \<open>None\<close> for a group that took no part in the match.
\<close>

type_synonym pymatch = "nat \<times> caps"

definition re_search :: "ucd \<Rightarrow> rx \<Rightarrow> str \<Rightarrow> pymatch option" where
  "re_search U patron texto = map_option (\<lambda>g. (ngroups patron, g)) (search U patron texto)"

definition group :: "pymatch \<Rightarrow> nat \<Rightarrow> error + str option" where
  "group m n = (if n \<le> fst m then Inr (snd m n) else Inl IndexError)"

text \<open>\<open>x.strip()\<close> where \<open>x\<close> is a string or \<open>None\<close>.\<close>

definition strip_of :: "str option \<Rightarrow> error + str" where
  "strip_of x = (case x of None \<Rightarrow> Inl AttributeError | Some s \<Rightarrow> Inr (strip s))"

text \<open>Writing patterns: a sequence of items, and a literal text.\<close>

fun seq :: "rx list \<Rightarrow> rx" where
  "seq [] = Eps"
| "seq (p # ps) = Seq p (seq ps)"

definition lit :: "string \<Rightarrow> rx" where
  "lit s = seq (map (\<lambda>c. One (Ch (of_char c))) s)"

text \<open>The items \<open>\s*\<close>, \<open>\n\<close> and \<open>\n*\<close>.\<close>

abbreviation sp :: rx where "sp \<equiv> Star Space"
abbreviation nl :: rx where "nl \<equiv> One (Ch 10)"
abbreviation nls :: rx where "nls \<equiv> Star (Ch 10)"

section \<open>Dictionaries\<close>

text \<open>
  A Python \<open>dict\<close> keeps its keys in insertion order: assigning to a key that is
  present replaces the value in place, assigning to a new key appends it.
\<close>

type_synonym dict = "(str \<times> str) list"

fun dict_set :: "dict \<Rightarrow> str \<Rightarrow> str \<Rightarrow> dict" where
  "dict_set [] k v = [(k, v)]"
| "dict_set ((k', v') # d) k v = (if k' = k then (k, v) # d else (k', v') # dict_set d k v)"

definition dict_get :: "dict \<Rightarrow> str \<Rightarrow> error + str" where
  "dict_get d k = (case map_of d k of None \<Rightarrow> Inl KeyError | Some v \<Rightarrow> Inr v)"

section \<open>\<open>extract_fields\<close>\<close>

definition fecha_emision :: str where
  "fecha_emision = u (''Fecha y lugar de emisi'' @ [CHR 0xF3] @ ''n'')"

text \<open>The dictionary \<open>patrones\<close>, in the order of the source.\<close>

definition patrones :: "(str \<times> rx) list" where
  "patrones = [
    (u (''C'' @ [CHR 0xE9] @ ''dula de Identificaci'' @ [CHR 0xF3] @ ''n fiscal''),
     seq [lit (''C'' @ [CHR 0xC9] @ ''DULA DE IDENTIFICACI'' @ [CHR 0xD3] @ ''N FISCAL ''), nl,
          Opt (Grp 1 (Star Word))]),
    (u ''CURP'',
     seq [lit ''CURP:'', nl, Opt (Grp 1 (Star Word))]),
    (u ''RFC'',
     seq [lit ''RFC:'', nl, Opt (Grp 1 (Star Word))]),
    (u (''Nombre o Raz'' @ [CHR 0xF3] @ ''n Social''),
     seq [lit ''Registro'', sp, lit ''Federal'', sp, lit ''de'', sp, lit ''Contribuyentes'', nl,
          Opt (Grp 1 (Star NotNL)), nl, lit ''Nombre,'', sp,
          lit (''denominaci'' @ [CHR 0xF3] @ ''n''), sp, lit ''o'', sp,
          lit (''raz'' @ [CHR 0xF3] @ ''n'')]),
    (u (''C'' @ [CHR 0xF3] @ ''digo Postal''),
     seq [lit (''C'' @ [CHR 0xF3] @ ''digo''), sp, lit ''Postal:'', sp,
          Opt (Grp 1 (Lazy Dot)), nl, lit ''Tipo'', sp, lit ''de'', sp, lit ''Vialidad:'']),
    (u ''Tipo Vialidad'',
     seq [lit ''Tipo'', sp, lit ''de'', sp, lit ''Vialidad:'', sp,
          Opt (Grp 1 (Lazy Dot)), nl, lit ''Nombre'', sp, lit ''de'', sp, lit ''Vialidad:'']),
    (u ''Nombre Vialidad'',
     seq [lit ''Nombre'', sp, lit ''de'', sp, lit ''Vialidad:'', sp,
          Opt (Grp 1 (Lazy Dot)), sp, lit (''N'' @ [CHR 0xFA] @ ''mero''), sp,
          lit ''Exterior:'']),
    (u (''N'' @ [CHR 0xFA] @ ''mero Exterior''),
     seq [lit (''N'' @ [CHR 0xFA] @ ''mero''), sp, lit ''Exterior:'', sp,
          Opt (Grp 1 (Star NotNL))]),
    (u (''N'' @ [CHR 0xFA] @ ''mero Interior''),
     seq [lit (''N'' @ [CHR 0xFA] @ ''mero''), sp, lit ''Interior:'', sp,
          Opt (Grp 1 (Lazy Dot)), nls, lit ''Nombre'']),
    (u ''Nombre Colonia'',
     seq [lit ''Nombre'', sp, lit ''de'', sp, lit ''la'', sp, lit ''Colonia:'', sp,
          Opt (Grp 1 (Star NotNL))]),
    (u ''Nombre Localidad'',
     seq [lit ''Nombre'', sp, lit ''de'', sp, lit ''la'', sp, lit ''Localidad:'', sp,
          Opt (Grp 1 (Lazy Dot)), sp, lit ''Nombre'']),
    (u (''Nombre Municipio o Demarcaci'' @ [CHR 0xF3] @ ''n Territorial''),
     seq [sp, lit ''Territorial:'', sp, Opt (Grp 1 (Lazy Dot)), nl, Opt (Grp 2 (Lazy Dot)), sp,
          lit ''Nombre'', sp, lit ''de'', sp, lit ''la'', sp, lit ''Entidad'', sp,
          lit ''Federativa:'']),
    (u ''Nombre Entidad Federativa'',
     seq [lit ''Nombre'', sp, lit ''de'', sp, lit ''la'', sp, lit ''Entidad'', sp,
          lit ''Federativa:'', sp, Opt (Grp 1 (Lazy Dot)), sp, nl]),
    (u ''Entre Calle'',
     seq [lit ''Entre'', sp, lit ''Calle:'', sp, Opt (Grp 1 (Lazy Dot)), nl,
          Opt (Grp 2 (Lazy Dot)), sp, lit ''Y'', sp, lit ''Calle:'']),
    (u ''Y Calle'',
     seq [lit ''Y'', sp, lit ''Calle:'', sp, Opt (Grp 1 (Star NotNL))]),
    (fecha_emision,
     seq [lit (''Lugar y Fecha de Emisi'' @ [CHR 0xF3] @ ''n''), nls, Grp 1 (Star NotNL), nls,
          Opt (Grp 2 (Star NotNL))])
  ]"

text \<open>
  The value that the loop stores for a match:
  \<^verbatim>\<open>m.group(1).strip() + ' ' + m.group(2).strip() if len(m.groups()) > 1 else m.group(1).strip()\<close>
\<close>

definition valor :: "pymatch \<Rightarrow> error + str" where
  "valor m =
     (if fst m > 1
      then ebind (ebind (group m 1) strip_of) (\<lambda>a.
           ebind (ebind (group m 2) strip_of) (\<lambda>b. Inr (a @ u '' '' @ b)))
      else ebind (group m 1) strip_of)"

text \<open>One iteration of \<^verbatim>\<open>for campo, patron in patrones.items()\<close>.\<close>

definition paso :: "ucd \<Rightarrow> str \<Rightarrow> dict \<Rightarrow> str \<times> rx \<Rightarrow> error + dict" where
  "paso U texto resultado regla =
     (case regla of (campo, patron) \<Rightarrow>
      (case re_search U patron texto of
         None \<Rightarrow> Inr (dict_set resultado campo (u ''N/A''))
       | Some coincidencia \<Rightarrow>
           ebind (valor coincidencia) (\<lambda>v.
           let resultado = dict_set resultado campo v in
           if campo = fecha_emision
           then ebind (dict_get resultado campo) (\<lambda>actual.
                ebind (dict_get resultado (u ''RFC'')) (\<lambda>rfc.
                Inr (dict_set resultado campo (py_replace actual rfc []))))
           else Inr resultado)))"

fun bucle_campos :: "ucd \<Rightarrow> str \<Rightarrow> (str \<times> rx) list \<Rightarrow> dict \<Rightarrow> error + dict" where
  "bucle_campos U texto [] resultado = Inr resultado"
| "bucle_campos U texto (regla # reglas) resultado =
     (case paso U texto resultado regla of
        Inl e \<Rightarrow> Inl e
      | Inr resultado' \<Rightarrow> bucle_campos U texto reglas resultado')"

definition extract_fields :: "ucd \<Rightarrow> str \<Rightarrow> error + dict" where
  "extract_fields U texto =
     ebind (normalize texto) (\<lambda>texto. bucle_campos U texto patrones [])"

text \<open>
  The two tables on the code points below U+0100, as CPython 3.11 has them; used to run
  the model on texts of such characters. (Above, this table knows no letter.)
\<close>

definition latin1 :: ucd where
  "latin1 = \<lparr>
     isalnum = (\<lambda>c. (48 \<le> c \<and> c \<le> 57) \<or> (65 \<le> c \<and> c \<le> 90) \<or> (97 \<le> c \<and> c \<le> 122) \<or>
        c = 170 \<or> c = 178 \<or> c = 179 \<or> c = 181 \<or> c = 185 \<or> c = 186 \<or>
        (188 \<le> c \<and> c \<le> 190) \<or> (192 \<le> c \<and> c \<le> 214) \<or> (216 \<le> c \<and> c \<le> 246) \<or>
        (248 \<le> c \<and> c \<le> 255)),
     lower = map (\<lambda>c. if (65 \<le> c \<and> c \<le> 90) \<or> (192 \<le> c \<and> c \<le> 214) \<or> (216 \<le> c \<and> c \<le> 222)
                        then c + 32 else c) \<rparr>"

section \<open>\<open>PDFExtractorApp.process_pdfs\<close>\<close>

text \<open>
  \<^verbatim>\<open>archivos_pdf = [f for f in os.listdir(folder_path) if f.lower().endswith(".pdf")]\<close>
  on the listing of the folder.
\<close>

definition endswith :: "str \<Rightarrow> str \<Rightarrow> bool" where
  "endswith s suf = suffix suf s"

definition archivos_pdf :: "ucd \<Rightarrow> str list \<Rightarrow> str list" where
  "archivos_pdf U listado = filter (\<lambda>f. endswith (lower U f) (u ''.pdf'')) listado"

text \<open>
  The record of one document: \<^verbatim>\<open>resultado['Archivo'] = archivo\<close>, then the dictionary
  comprehension that builds a new dictionary from the key list
  \<^verbatim>\<open>['Archivo'] + [key for key in resultado if key != 'Archivo']\<close>.
\<close>

fun construir :: "dict \<Rightarrow> str list \<Rightarrow> dict \<Rightarrow> error + dict" where
  "construir d [] nuevo = Inr nuevo"
| "construir d (k # ks) nuevo = ebind (dict_get d k) (\<lambda>v. construir d ks (dict_set nuevo k v))"

definition registro :: "ucd \<Rightarrow> str \<Rightarrow> str \<Rightarrow> error + dict" where
  "registro U archivo texto =
     ebind (extract_fields U texto) (\<lambda>resultado.
     let resultado = dict_set resultado (u ''Archivo'') archivo in
     construir resultado
       (u ''Archivo'' # filter (\<lambda>key. key \<noteq> u ''Archivo'') (map fst resultado)) [])"

text \<open>
  What the loop over the files has done so far: the files handed to \<open>get_text\<close>, the
  list \<open>resultados\<close>, and the progress reports, each as the pair \<open>(i, total)\<close> from which
  the source computes \<^verbatim>\<open>int((i / total) * 100)\<close>.
\<close>

record estado =
  leidos :: "str list"
  resultados :: "dict list"
  progreso :: "(nat \<times> nat) list"

text \<open>
  How \<open>process_pdfs\<close> leaves its loop: the warning and the early return when the folder
  has no PDF, an exception that leaves the method (nothing in the source catches one),
  or the end of the loop, from where the source goes on to the save dialog.
\<close>

datatype salida = SinPDFs | Abortado error estado | Completado estado

text \<open>
  The loop \<^verbatim>\<open>for i, archivo in enumerate(archivos_pdf, 1)\<close>. \<open>leer archivo\<close> stands for
  \<^verbatim>\<open>get_text(os.path.join(folder_path, archivo))\<close>: the text of the file, or the exception
  that \<open>fitz\<close> raises on it. \<open>total'\<close> is the variable \<open>total\<close> of the source.
\<close>

fun bucle_archivos ::
  "ucd \<Rightarrow> (str \<Rightarrow> error + str) \<Rightarrow> nat \<Rightarrow> (nat \<times> str) list \<Rightarrow> estado \<Rightarrow> salida" where
  "bucle_archivos U leer total' [] e = Completado e"
| "bucle_archivos U leer total' ((i, archivo) # resto) e =
     (let e = e\<lparr>leidos := leidos e @ [archivo]\<rparr> in
      case leer archivo of
        Inl err \<Rightarrow> Abortado err e
      | Inr texto \<Rightarrow>
          if is_fiscal texto
          then (case registro U archivo texto of
                  Inl err \<Rightarrow> Abortado err e
                | Inr resultado \<Rightarrow>
                    bucle_archivos U leer total' resto
                      (e\<lparr>resultados := resultados e @ [resultado],
                         progreso := progreso e @ [(i, total')]\<rparr>))
          else bucle_archivos U leer total' resto (e\<lparr>progreso := progreso e @ [(i, total')]\<rparr>))"

definition process_pdfs :: "ucd \<Rightarrow> (str \<Rightarrow> error + str) \<Rightarrow> str list \<Rightarrow> salida" where
  "process_pdfs U leer listado =
     (let archivos = archivos_pdf U listado;
          total' = length archivos
      in if total' = 0 then SinPDFs
         else bucle_archivos U leer total' (zip [1..<Suc total'] archivos)
                \<lparr>leidos = [], resultados = [], progreso = []\<rparr>)"

section \<open>The words of the specification\<close>

text \<open>
  Truncation at the first occurrence of a marker: the first position where the marker
  starts, and the text before it; the whole text when there is none.
\<close>

definition first_occurrence :: "str \<Rightarrow> str \<Rightarrow> nat option" where
  "first_occurrence m s = find (\<lambda>i. prefix m (drop i s)) [0..<Suc (length s)]"

definition truncate_at :: "str \<Rightarrow> str \<Rightarrow> str" where
  "truncate_at m s = (case first_occurrence m s of None \<Rightarrow> s | Some i \<Rightarrow> take i s)"

text \<open>
  Deletion of every literal occurrence of \<open>m\<close>: position \<open>j\<close> of the text is covered when
  it lies inside an occurrence of \<open>m\<close>, and the characters at the covered positions go.
\<close>

definition covered :: "str \<Rightarrow> str \<Rightarrow> nat \<Rightarrow> bool" where
  "covered m s j = (\<exists>i \<in> set [0..<Suc j]. j < i + length m \<and> prefix m (drop i s))"

definition delete_all :: "str \<Rightarrow> str \<Rightarrow> str" where
  "delete_all m s = map (\<lambda>j. s ! j) (filter (\<lambda>j. \<not> covered m s j) [0..<length s])"

text \<open>The seven boilerplate markers of the normalisation.\<close>

definition marcas :: "str list" where
  "marcas = [actividades, aviso, pagina ''2'', pagina ''3'', pagina ''4'', pagina ''5'',
     pagina ''6'']"

text \<open>A text with no whitespace at either end (the empty text is one).\<close>

definition trimmed :: "str \<Rightarrow> bool" where
  "trimmed v = (v = [] \<or> (\<not> isspace (hd v) \<and> \<not> isspace (last v)))"

text \<open>
  The value of one field taken on its own: its pattern searched in the cleaned text, the
  sentinel when there is no match, the stored value of the match otherwise.
\<close>

definition valor_campo :: "ucd \<Rightarrow> str \<Rightarrow> rx \<Rightarrow> error + str" where
  "valor_campo U texto patron =
     (case re_search U patron texto of None \<Rightarrow> Inr (u ''N/A'') | Some m \<Rightarrow> valor m)"

text \<open>
  A document classified as fiscal: its text could be read and has the marker. Its
  Record: the field map of its text with the key of the file name put first.
\<close>

definition es_fiscal :: "(str \<Rightarrow> error + str) \<Rightarrow> str \<Rightarrow> bool" where
  "es_fiscal leer f = (case leer f of Inl err \<Rightarrow> False | Inr texto \<Rightarrow> is_fiscal texto)"

definition registro_de :: "ucd \<Rightarrow> (str \<Rightarrow> error + str) \<Rightarrow> str \<Rightarrow> dict" where
  "registro_de U leer f =
     (case leer f of
        Inl err \<Rightarrow> []
      | Inr texto \<Rightarrow>
          (case extract_fields U texto of Inl err \<Rightarrow> [] | Inr d \<Rightarrow> (u ''Archivo'', f) # d))"

text \<open>
  A notion for the proofs about the matcher: whenever \<open>p\<close> matches at a position, the
  match that the matcher returns there has given group \<open>n\<close> a text.
\<close>

definition fija :: "ucd \<Rightarrow> nat \<Rightarrow> rx \<Rightarrow> bool" where
  "fija U n p = (\<forall>s g. ms U p s g \<noteq> [] \<longrightarrow> snd (hd (ms U p s g)) n \<noteq> None)"


section \<open>Splitting and replacing\<close>

text \<open>\<open>sub in s\<close> holds exactly when \<open>sub\<close> is a contiguous part of \<open>s\<close>.\<close>

lemma py_in_sublist: "py_in sub s \<longleftrightarrow> sublist sub s"
  by (induction s) (auto simp: sublist_Cons_right)

text \<open>\<open>s.split(sep)[0]\<close> is the text before the first occurrence of the separator.\<close>

lemma find_map_Suc: "find P (map f xs) = map_option f (find (P \<circ> f) xs)"
  by (induction xs) auto

lemma first_occurrence_Cons:
  "first_occurrence m (c # cs) =
     (if prefix m (c # cs) then Some 0 else map_option Suc (first_occurrence m cs))"
proof -
  have "[0..<Suc (length (c # cs))] = 0 # map Suc [0..<Suc (length cs)]"
    by (metis length_Cons map_Suc_upt upt_conv_Cons zero_less_Suc)
  then show ?thesis
    unfolding first_occurrence_def by (simp add: find_map_Suc comp_def del: upt_Suc)
qed

lemma truncate_at_Cons:
  "truncate_at m (c # cs) = (if prefix m (c # cs) then [] else c # truncate_at m cs)"
  by (simp add: truncate_at_def first_occurrence_Cons split: option.splits)

lemma truncate_at_Nil: "truncate_at (a # as) [] = []"
  by (simp add: truncate_at_def first_occurrence_def)

lemma hd_split_ne: "hd (split_ne a as cur s) = cur @ truncate_at (a # as) s"
  by (induction a as cur s rule: split_ne.induct) (simp_all add: truncate_at_Cons truncate_at_Nil)

lemma split_ne_not_Nil: "split_ne a as cur s \<noteq> []"
  by (induction a as cur s rule: split_ne.induct) simp_all

lemma split_index0:
  "ebind (py_split s (a # as)) index0 = Inr (truncate_at (a # as) s)"
proof -
  obtain p ps where "split_ne a as [] s = p # ps"
    using split_ne_not_Nil by (cases "split_ne a as [] s") auto
  moreover from this have "p = truncate_at (a # as) s"
    using hd_split_ne [of a as "[]" s] by simp
  ultimately show ?thesis
    by (simp add: py_split_def ebind_def index0_def)
qed


text \<open>
  \<open>s.replace(m, '')\<close> deletes every occurrence of \<open>m\<close> when no two occurrences of \<open>m\<close>
  can overlap; that is so when the first character of \<open>m\<close> does not come again in it.
\<close>

lemma occ_nth:
  assumes "prefix m (drop i s)" "j < length m"
  shows "s ! (i + j) = m ! j" and "i + length m \<le> length s"
proof -
  from assms(1) obtain zs where z: "drop i s = m @ zs" by (auto simp: prefix_def)
  then have "length (drop i s) = length m + length zs" by simp
  then show le: "i + length m \<le> length s" using assms(2) by simp
  have "(drop i s) ! j = m ! j" using z assms(2) by (simp add: nth_append)
  moreover have "(drop i s) ! j = s ! (i + j)" using le by simp
  ultimately show "s ! (i + j) = m ! j" by simp
qed

lemma no_overlap:
  assumes "a \<notin> set as" "prefix (a # as) (drop k s)" "prefix (a # as) (drop i s)" "k < i"
  shows "k + Suc (length as) \<le> i"
proof (rule ccontr)
  assume "\<not> k + Suc (length as) \<le> i"
  then have lt: "i - k < Suc (length as)" using assms(4) by simp
  have "s ! (k + (i - k)) = (a # as) ! (i - k)"
    using occ_nth(1) [OF assms(2), of "i - k"] lt by simp
  moreover have "s ! (i + 0) = (a # as) ! 0"
    using occ_nth(1) [OF assms(3), of 0] by simp
  ultimately have "(a # as) ! (i - k) = a" using assms(4) by simp
  moreover obtain d where d: "i - k = Suc d" using assms(4) by (cases "i - k") auto
  ultimately have "as ! d = a" by simp
  moreover have "d < length as" using lt d by simp
  ultimately show False using assms(1) by (metis nth_mem)
qed

lemma delete_from_replace:
  assumes "a \<notin> set as"
    and "\<forall>i<k. prefix (a # as) (drop i s) \<longrightarrow> i + Suc (length as) \<le> k"
  shows "map (\<lambda>j. s ! j) (filter (\<lambda>j. \<not> covered (a # as) s j) [k..<length s])
         = replace_ne a as [] (drop k s)"
  using assms(2)
proof (induction "length s - k" arbitrary: k rule: less_induct)
  case less
  show ?case
  proof (cases "k < length s")
    case False
    then show ?thesis by simp
  next
    case True
    then have dk: "drop k s = s ! k # drop (Suc k) s"
      by (simp add: Cons_nth_drop_Suc)
    show ?thesis
    proof (cases "prefix (a # as) (drop k s)")
      case occ: True
      define L where "L = Suc (length as)"
      have L: "0 < L" "length (a # as) = L" by (simp_all add: L_def)
      have le: "k + L \<le> length s" using occ_nth(2) [OF occ, of 0] by (simp add: L_def)
      have "(k + L) + (length s - (k + L)) = length s" using le by simp
      then have split: "[k..<length s] = [k..<k + L] @ [k + L..<length s]"
        using upt_add_eq_append [of k "k + L" "length s - (k + L)"] by (metis le_add1)
      have "covered (a # as) s j" if "j \<in> set [k..<k + L]" for j
      proof -
        from that have j: "k \<le> j" "j < k + L" by auto
        then have "k \<in> set [0..<Suc j]" by auto
        moreover have "j < k + length (a # as) \<and> prefix (a # as) (drop k s)"
          using j occ L by simp
        ultimately show ?thesis unfolding covered_def by blast
      qed
      then have f1: "filter (\<lambda>j. \<not> covered (a # as) s j) [k..<k + L] = []"
        by (simp add: filter_empty_conv)
      have inv: "\<forall>i<k + L. prefix (a # as) (drop i s) \<longrightarrow> i + Suc (length as) \<le> k + L"
      proof (intro allI impI)
        fix i assume i: "i < k + L" and o: "prefix (a # as) (drop i s)"
        show "i + Suc (length as) \<le> k + L"
        proof (cases "i \<le> k")
          case True then show ?thesis by (simp add: L_def)
        next
          case False
          then have "k + L \<le> i" using no_overlap [OF assms(1) occ o] by (simp add: L_def)
          then show ?thesis using i by simp
        qed
      qed
      have "length s - (k + L) < length s - k" using True L by simp
      from less.hyps [OF this inv]
      have "map (\<lambda>j. s ! j) (filter (\<lambda>j. \<not> covered (a # as) s j) [k + L..<length s])
            = replace_ne a as [] (drop (k + L) s)" .
      moreover have "replace_ne a as [] (drop k s) = replace_ne a as [] (drop (k + L) s)"
      proof -
        have "replace_ne a as [] (s ! k # drop (Suc k) s)
              = replace_ne a as [] (drop (length as) (drop (Suc k) s))"
          using occ dk by simp
        moreover have "drop (length as) (drop (Suc k) s) = drop (k + L) s"
          by (simp add: L_def add.commute)
        ultimately show ?thesis using dk by simp
      qed
      ultimately show ?thesis unfolding split filter_append map_append f1 by simp
    next
      case nocc: False
      let ?L = "Suc (length as)"
      have ncov: "\<not> covered (a # as) s k"
      proof
        assume "covered (a # as) s k"
        then obtain i where "i \<in> set [0..<Suc k]" "k < i + length (a # as)"
          and i3: "prefix (a # as) (drop i s)"
          unfolding covered_def by blast
        then have i: "i \<le> k" "k < i + ?L" "prefix (a # as) (drop i s)" by auto
        show False
        proof (cases "i = k")
          case True then show ?thesis using i nocc by simp
        next
          case False
          then have "i < k" using i by simp
          then show ?thesis using less.prems i by auto
        qed
      qed
      have inv: "\<forall>i<Suc k. prefix (a # as) (drop i s) \<longrightarrow> i + ?L \<le> Suc k"
      proof (intro allI impI)
        fix i assume i: "i < Suc k" and o: "prefix (a # as) (drop i s)"
        then have "i \<noteq> k" using nocc by auto
        then have "i < k" using i by simp
        then show "i + ?L \<le> Suc k" using less.prems o by fastforce
      qed
      have "length s - Suc k < length s - k" using True by simp
      from less.hyps [OF this inv]
      have "map (\<lambda>j. s ! j) (filter (\<lambda>j. \<not> covered (a # as) s j) [Suc k..<length s])
            = replace_ne a as [] (drop (Suc k) s)" .
      moreover have "[k..<length s] = k # [Suc k..<length s]"
        using True by (simp add: upt_conv_Cons)
      moreover have "replace_ne a as [] (drop k s) = s ! k # replace_ne a as [] (drop (Suc k) s)"
      proof -
        have "\<not> prefix (a # as) (s ! k # drop (Suc k) s)" using nocc dk by metis
        then have "replace_ne a as [] (s ! k # drop (Suc k) s)
                   = s ! k # replace_ne a as [] (drop (Suc k) s)"
          by (simp only: replace_ne.simps if_False)
        then show ?thesis using dk by metis
      qed
      ultimately show ?thesis using ncov by simp
    qed
  qed
qed

lemma replace_delete_all:
  assumes "a \<notin> set as"
  shows "py_replace s (a # as) [] = delete_all (a # as) s"
  using delete_from_replace [OF assms, of 0 s] by (simp add: py_replace_def delete_all_def)


lemma ebind_Inr: "ebind (Inr x) f = f x"
  by (simp add: ebind_def)

lemma ebind_Inl: "ebind (Inl e) f = Inl e"
  by (simp add: ebind_def)

lemma split_index0_ne:
  assumes "sep \<noteq> []"
  shows "ebind (py_split s sep) index0 = Inr (truncate_at sep s)"
proof -
  obtain a as where "sep = a # as" using assms by (cases sep) auto
  then show ?thesis using split_index0 by simp
qed

lemma replace_delete_all_ne:
  assumes "m \<noteq> []" "hd m \<notin> set (tl m)"
  shows "py_replace s m [] = delete_all m s"
proof -
  obtain a as where "m = a # as" using assms(1) by (cases m) auto
  then show ?thesis using replace_delete_all [of a as s] assms(2) by simp
qed

lemma actividades_ne: "actividades \<noteq> []"
  by (simp add: actividades_def u_def)

lemma aviso_ne: "aviso \<noteq> []"
  by (simp add: aviso_def u_def)

lemma pagina_ne: "pagina n \<noteq> []"
  by (simp add: pagina_def u_def)

lemma pagina_no_overlap:
  "n \<in> {''2'', ''3'', ''4'', ''5'', ''6''} \<Longrightarrow> hd (pagina n) \<notin> set (tl (pagina n))"
  by (auto simp: pagina_def u_def)

lemma normalize_steps:
  "normalize s = Inr (py_replace (py_replace (py_replace (py_replace (py_replace
      (truncate_at aviso (truncate_at actividades s))
      (pagina ''2'') []) (pagina ''3'') []) (pagina ''4'') []) (pagina ''5'') [])
      (pagina ''6'') [])"
  unfolding normalize_def
  by (simp only: split_index0_ne [OF actividades_ne] split_index0_ne [OF aviso_ne]
      ebind_Inr Let_def)

section \<open>Normalisation\<close>

text \<open>
  Claim C4. For every text, the normalisation raises no exception and its result is the
  composition, in this order, of: truncation at the first occurrence of the heading of
  the economic activities, truncation at the first occurrence of the sentence of the
  privacy notice (a truncation leaves a text without the marker as it is), and the
  deletion of every occurrence of the page footer for N = 2, then 3, 4, 5 and 6.
\<close>

theorem normalize_is_composition:
  "normalize s =
     Inr (delete_all (pagina ''6'') (delete_all (pagina ''5'') (delete_all (pagina ''4'')
       (delete_all (pagina ''3'') (delete_all (pagina ''2'')
         (truncate_at aviso (truncate_at actividades s)))))))"
  unfolding normalize_steps
  by (simp add: replace_delete_all_ne pagina_ne pagina_no_overlap)

section \<open>The classifier\<close>

text \<open>
  Claim C2. \<open>is_fiscal s\<close> holds exactly when the marker occurs in the raw text \<open>s\<close> as
  it is written; it is false for the empty text, for the marker in lower case or in
  mixed case, and for the marker without its last letter.
\<close>

theorem is_fiscal_iff_marker:
  "(is_fiscal s \<longleftrightarrow> (\<exists>pre post. s = pre @ marca_fiscal @ post)) \<and>
   \<not> is_fiscal [] \<and>
   \<not> is_fiscal (u (''constancia de situaci'' @ [CHR 0xF3] @ ''n fiscal'')) \<and>
   \<not> is_fiscal (u (''Constancia de Situaci'' @ [CHR 0xF3] @ ''n Fiscal'')) \<and>
   \<not> is_fiscal (u (''CONSTANCIA DE SITUACI'' @ [CHR 0xD3] @ ''N FISCA''))"
proof -
  have "is_fiscal s \<longleftrightarrow> (\<exists>pre post. s = pre @ marca_fiscal @ post)"
    by (simp add: is_fiscal_def py_in_sublist sublist_def)
  moreover have "\<not> is_fiscal []"
    by (simp add: is_fiscal_def marca_fiscal_def u_def)
  moreover have "\<not> is_fiscal (u (''constancia de situaci'' @ [CHR 0xF3] @ ''n fiscal''))"
    by (simp add: is_fiscal_def marca_fiscal_def u_def)
  moreover have "\<not> is_fiscal (u (''Constancia de Situaci'' @ [CHR 0xF3] @ ''n Fiscal''))"
    by (simp add: is_fiscal_def marca_fiscal_def u_def)
  moreover have "\<not> is_fiscal (u (''CONSTANCIA DE SITUACI'' @ [CHR 0xD3] @ ''N FISCA''))"
    by (simp add: is_fiscal_def marca_fiscal_def u_def)
  ultimately show ?thesis by blast
qed

section \<open>Normalising twice\<close>

lemma truncate_at_empty: "truncate_at m [] = []"
  by (simp add: truncate_at_def split: option.splits)

lemma truncate_at_absent: "\<not> py_in m s \<Longrightarrow> truncate_at m s = s"
  by (induction s) (simp_all add: truncate_at_Cons truncate_at_empty)

lemma replace_ne_absent: "\<not> py_in (a # as) s \<Longrightarrow> replace_ne a as new s = s"
  by (induction s) auto

lemma py_replace_absent: "m \<noteq> [] \<Longrightarrow> \<not> py_in m s \<Longrightarrow> py_replace s m new = s"
  by (cases m) (simp_all add: py_replace_def replace_ne_absent)

lemma normalize_fixed:
  assumes "\<forall>m \<in> set marcas. \<not> py_in m t"
  shows "normalize t = Inr t"
  using assms unfolding normalize_steps
  by (simp add: marcas_def truncate_at_absent py_replace_absent pagina_ne)

text \<open>
  Claim C5, as amended. When the normalised text contains none of the seven boilerplate
  markers, normalising it again gives the same result.
\<close>

theorem normalize_idempotent_when_clean:
  assumes "normalize s = Inr t" and "\<forall>m \<in> set marcas. \<not> py_in m t"
  shows "ebind (normalize s) normalize = normalize s"
  using assms normalize_fixed [of t] by (simp add: ebind_def)

text \<open>
  Claim C5 as stated fails: deleting the footer for N = 2 from inside another footer puts
  a footer together, which the second normalisation deletes.
\<close>

theorem normalize_not_idempotent:
  "normalize (u (''P'' @ [CHR 0xE1] @ ''gina  [2] de [P'' @ [CHR 0xE1] @ ''gina  [2] de [2]2]''))
     = Inr (pagina ''2'') \<and>
   ebind (normalize (u (''P'' @ [CHR 0xE1] @ ''gina  [2] de [P'' @ [CHR 0xE1]
     @ ''gina  [2] de [2]2]''))) normalize = Inr []"
  by (simp add: normalize_def py_split_def py_replace_def index0_def ebind_def u_def
      actividades_def aviso_def pagina_def)

theorem normalize_idempotent_when_clean_witness:
  "normalize (u (''CURP:\<newline>XP'' @ [CHR 0xE1] @ ''gina  [2] de [4]Y'')) = Inr (u ''CURP:\<newline>XY'') \<and>
   \<not> py_in actividades (u ''CURP:\<newline>XY'') \<and> \<not> py_in aviso (u ''CURP:\<newline>XY'') \<and>
   \<not> py_in (pagina ''2'') (u ''CURP:\<newline>XY'') \<and> \<not> py_in (pagina ''3'') (u ''CURP:\<newline>XY'') \<and>
   \<not> py_in (pagina ''4'') (u ''CURP:\<newline>XY'') \<and> \<not> py_in (pagina ''5'') (u ''CURP:\<newline>XY'') \<and>
   \<not> py_in (pagina ''6'') (u ''CURP:\<newline>XY'') \<and>
   ebind (normalize (u (''CURP:\<newline>XP'' @ [CHR 0xE1] @ ''gina  [2] de [4]Y''))) normalize
     = normalize (u (''CURP:\<newline>XP'' @ [CHR 0xE1] @ ''gina  [2] de [4]Y''))"
proof -
  have n: "normalize (u (''CURP:\<newline>XP'' @ [CHR 0xE1] @ ''gina  [2] de [4]Y''))
           = Inr (u ''CURP:\<newline>XY'')"
    by (simp add: normalize_def py_split_def py_replace_def index0_def ebind_def u_def
        actividades_def aviso_def pagina_def)
  have c: "\<forall>m \<in> set marcas. \<not> py_in m (u ''CURP:\<newline>XY'')"
    by (simp add: marcas_def u_def actividades_def aviso_def pagina_def)
  from normalize_idempotent_when_clean [OF n c] n c show ?thesis
    by (simp add: marcas_def)
qed


section \<open>The matcher\<close>

text \<open>A group that has a text keeps one through the rest of the match.\<close>

lemma ms_keeps_group:
  "(s', g') \<in> set (ms U p s g) \<Longrightarrow> g n \<noteq> None \<Longrightarrow> g' n \<noteq> None"
proof (induction p arbitrary: s g s' g')
  case (Star a)
  then show ?case by (induction s) (auto split: if_splits)
next
  case (Lazy a)
  then show ?case by (induction s) (auto split: if_splits)
next
  case (One a)
  then show ?case by (cases s) (auto split: if_splits)
next
  case (Seq p q)
  from Seq.prems(1) obtain s1 g1 where "(s1, g1) \<in> set (ms U p s g)"
    and "(s', g') \<in> set (ms U q s1 g1)" by auto
  then show ?case using Seq.IH Seq.prems(2) by blast
next
  case (Grp m p)
  from Grp.prems(1) obtain g1 where "(s', g1) \<in> set (ms U p s g)"
    and "g' = g1(m \<mapsto> take (length s - length s') s)" by auto
  then show ?case using Grp.IH Grp.prems(2) by (cases "m = n") auto
qed auto

text \<open>Where the text goes on after a match does not depend on the groups.\<close>

lemma ms_rests: "map fst (ms U p s g) = map fst (ms U p s g')"
proof (induction p arbitrary: s g g')
  case (Star a)
  show ?case by (induction s) auto
next
  case (Lazy a)
  show ?case by (induction s) auto
next
  case (One a)
  show ?case by (cases s) auto
next
  case (Seq p q)
  have k: "map fst (concat (map (\<lambda>(s1, g1). ms U q s1 g1) xs))
           = concat (map (\<lambda>s1. map fst (ms U q s1 g)) (map fst xs))" for xs
  proof (induction xs)
    case (Cons x xs)
    obtain s1 g1 where "x = (s1, g1)" by (cases x)
    then show ?case using Cons Seq.IH(2) [of s1 g1 g] by simp
  qed simp
  show ?case using Seq.IH(1) [of s g g'] by (simp add: k)
next
  case (Grp m p)
  have "map fst (map (\<lambda>(s', g'). (s', f s' g')) xs) = map fst xs"
    for f :: "str \<Rightarrow> caps \<Rightarrow> caps" and xs
    by (induction xs) auto
  then have "map fst (ms U (Grp m p) s h) = map fst (ms U p s h)" for h
    by simp
  then show ?case using Grp.IH by metis
next
  case (Opt p)
  then show ?case by simp
qed auto

lemma ms_empty_any: "ms U p s g = [] \<Longrightarrow> ms U p s g' = []"
  using ms_rests [of U p s g g'] by (metis map_is_Nil_conv)

text \<open>A starred item can match the empty text where it stands.\<close>

lemma ms_Star_here: "(s, g) \<in> set (ms U (Star a) s g)"
  by (cases s) auto

lemma ms_Lazy_here: "(s, g) \<in> set (ms U (Lazy a) s g)"
  by (cases s) auto

lemma ms_Grp_sets: "(s', g') \<in> set (ms U (Grp n p) s g) \<Longrightarrow> g' n \<noteq> None"
  by auto

lemma ms_Seq_in:
  "x \<in> set (ms U (Seq p q) s g) \<Longrightarrow>
     \<exists>s1 g1. (s1, g1) \<in> set (ms U p s g) \<and> x \<in> set (ms U q s1 g1)"
  by auto

lemma ms_Seq_empty:
  "ms U (Seq p q) s g = [] \<Longrightarrow> (s1, g1) \<in> set (ms U p s g) \<Longrightarrow> ms U q s1 g1 = []"
  by auto

lemma ms_Grp_here:
  assumes "(s, g) \<in> set (ms U p s g)"
  shows "(s, g(n \<mapsto> [])) \<in> set (ms U (Grp n p) s g)"
proof -
  have "(\<lambda>(s', g'). (s', g'(n \<mapsto> take (length s - length s') s))) (s, g)
        \<in> (\<lambda>(s', g'). (s', g'(n \<mapsto> take (length s - length s') s))) ` set (ms U p s g)"
    using assms by (rule imageI)
  then show ?thesis by simp
qed

lemma hd_concat_in:
  assumes "concat xss \<noteq> []"
  shows "\<exists>xs \<in> set xss. xs \<noteq> [] \<and> hd (concat xss) = hd xs"
  using assms by (induction xss) (auto simp: hd_append)

text \<open>The rules by which a pattern is seen to give its group a text.\<close>

lemma fija_Seq: "fija U n q \<Longrightarrow> fija U n (Seq p q)"
proof -
  assume q: "fija U n q"
  show ?thesis unfolding fija_def
  proof (intro allI impI)
    fix s g assume ne: "ms U (Seq p q) s g \<noteq> []"
    then obtain xs where "xs \<in> set (map (\<lambda>(s1, g1). ms U q s1 g1) (ms U p s g))"
      and "xs \<noteq> []" and "hd (ms U (Seq p q) s g) = hd xs"
      using hd_concat_in [of "map (\<lambda>(s1, g1). ms U q s1 g1) (ms U p s g)"] by auto
    then show "snd (hd (ms U (Seq p q) s g)) n \<noteq> None"
      using q unfolding fija_def by auto
  qed
qed

lemma fija_Grp: "fija U n (Seq (Grp n p) q)"
  unfolding fija_def
proof (intro allI impI)
  fix s g assume ne: "ms U (Seq (Grp n p) q) s g \<noteq> []"
  then have "hd (ms U (Seq (Grp n p) q) s g) \<in> set (ms U (Seq (Grp n p) q) s g)"
    by (rule hd_in_set)
  then obtain s1 g1 where 1: "(s1, g1) \<in> set (ms U (Grp n p) s g)"
    and 2: "hd (ms U (Seq (Grp n p) q) s g) \<in> set (ms U q s1 g1)"
    using ms_Seq_in by blast
  have "g1 n \<noteq> None" using 1 by (rule ms_Grp_sets)
  then show "snd (hd (ms U (Seq (Grp n p) q) s g)) n \<noteq> None"
    using 2 ms_keeps_group [of "fst (hd (ms U (Seq (Grp n p) q) s g))"
      "snd (hd (ms U (Seq (Grp n p) q) s g))" U q s1 g1 n] by simp
qed

lemma fija_Opt:
  assumes here: "\<And>s g. (s, g) \<in> set (ms U p s g)"
  shows "fija U n (Seq (Opt (Grp n p)) q)"
  unfolding fija_def
proof (intro allI impI)
  fix s g assume ne: "ms U (Seq (Opt (Grp n p)) q) s g \<noteq> []"
  have eq: "ms U (Seq (Opt (Grp n p)) q) s g = ms U (Seq (Grp n p) q) s g @ ms U q s g"
    by simp
  have first: "ms U (Seq (Grp n p) q) s g \<noteq> []"
  proof
    assume e: "ms U (Seq (Grp n p) q) s g = []"
    have "(s, g(n \<mapsto> [])) \<in> set (ms U (Grp n p) s g)"
      using here [of s g] by (rule ms_Grp_here)
    then have "ms U q s (g(n \<mapsto> [])) = []" using e ms_Seq_empty by blast
    then have "ms U q s g = []" by (rule ms_empty_any)
    then show False using ne e eq by simp
  qed
  then have "snd (hd (ms U (Seq (Grp n p) q) s g)) n \<noteq> None"
    using fija_Grp [of U n p q] unfolding fija_def by blast
  moreover have "hd (ms U (Seq (Opt (Grp n p)) q) s g) = hd (ms U (Seq (Grp n p) q) s g)"
    using eq first by (metis hd_append2)
  ultimately show "snd (hd (ms U (Seq (Opt (Grp n p)) q) s g)) n \<noteq> None"
    by metis
qed

lemma fija_Opt_Star: "fija U n (Seq (Opt (Grp n (Star a))) q)"
  by (rule fija_Opt) (rule ms_Star_here)

lemma fija_Opt_Lazy: "fija U n (Seq (Opt (Grp n (Lazy a))) q)"
  by (rule fija_Opt) (rule ms_Lazy_here)

lemma search_first:
  "search U p s = Some g \<Longrightarrow>
     \<exists>s'. ms U p s' (\<lambda>n. None) \<noteq> [] \<and> g = snd (hd (ms U p s' (\<lambda>n. None)))"
proof (induction s)
  case Nil
  then show ?case by (auto split: list.splits intro!: exI [of _ "[]"])
next
  case (Cons c cs)
  show ?case
  proof (cases "ms U p (c # cs) (\<lambda>n. None)")
    case Nil
    then show ?thesis using Cons by simp
  next
    case (Cons x xs)
    then show ?thesis using Cons.prems by (auto split: prod.splits intro!: exI [of _ "c # cs"])
  qed
qed

lemma search_fija: "fija U n p \<Longrightarrow> search U p s = Some g \<Longrightarrow> g n \<noteq> None"
  using search_first [of U p s g] unfolding fija_def by blast


section \<open>The catalog\<close>

lemma ngroups_lit: "ngroups (lit s) = 0"
  unfolding lit_def by (induction s) auto

lemma patrones_fija_1: "(campo, patron) \<in> set patrones \<Longrightarrow> fija U 1 patron"
  unfolding patrones_def
  apply (simp only: list.set insert_iff empty_iff prod.inject seq.simps)
  apply (elim disjE conjE FalseE)
  apply (simp_all only:)
  apply ((rule fija_Opt_Star | rule fija_Opt_Lazy | rule fija_Grp | rule fija_Seq)+)+
  done

lemma patrones_fija_2:
  "(campo, patron) \<in> set patrones \<Longrightarrow> ngroups patron = 1 \<or> ngroups patron = 2 \<and> fija U 2 patron"
  unfolding patrones_def
  apply (simp only: list.set insert_iff empty_iff prod.inject seq.simps)
  apply (elim disjE conjE FalseE)
  apply (simp_all only:)
  apply (simp_all add: ngroups_lit)
  apply ((rule fija_Opt_Star | rule fija_Opt_Lazy | rule fija_Grp | rule fija_Seq)+)+
  done


text \<open>A match of a pattern of the catalog has a text for each group of the pattern.\<close>

lemma valor_match:
  assumes "(campo, patron) \<in> set patrones" and "re_search U patron t = Some m"
  shows "\<exists>a. snd m 1 = Some a \<and>
           (if ngroups patron = 1 then valor m = Inr (strip a)
            else \<exists>b. snd m 2 = Some b \<and> valor m = Inr (strip a @ u '' '' @ strip b))"
proof -
  from assms(2) obtain g where g: "search U patron t = Some g" and m: "m = (ngroups patron, g)"
    by (auto simp: re_search_def)
  from patrones_fija_1 [OF assms(1)] g obtain a where a: "g 1 = Some a"
    using search_fija by blast
  show ?thesis
  proof (cases "ngroups patron = 1")
    case True
    then show ?thesis using a m
      by (simp add: valor_def group_def strip_of_def ebind_def)
  next
    case False
    then have n2: "ngroups patron = 2" and "fija U 2 patron"
      using patrones_fija_2 [OF assms(1)] by auto
    then obtain b where b: "g 2 = Some b" using g search_fija by blast
    show ?thesis using a b m n2
      by (simp add: valor_def group_def strip_of_def ebind_def)
  qed
qed

lemma valor_campo_total:
  assumes "(campo, patron) \<in> set patrones"
  shows "\<exists>v. valor_campo U t patron = Inr v"
proof (cases "re_search U patron t")
  case None
  then show ?thesis by (simp add: valor_campo_def)
next
  case (Some m)
  then show ?thesis using valor_match [OF assms Some]
    by (auto simp: valor_campo_def split: if_splits)
qed

section \<open>Dictionaries\<close>

lemma dict_set_new: "k \<notin> set (map fst d) \<Longrightarrow> dict_set d k v = d @ [(k, v)]"
  by (induction d) auto

lemma dict_set_last: "k \<notin> set (map fst d) \<Longrightarrow> dict_set (d @ [(k, v)]) k w = d @ [(k, w)]"
  by (induction d) auto

lemma dict_get_last: "k \<notin> set (map fst d) \<Longrightarrow> dict_get (d @ [(k, v)]) k = Inr v"
  by (induction d) (auto simp: dict_get_def)

lemma dict_get_before:
  "k \<noteq> k' \<Longrightarrow> dict_get (d @ [(k', v)]) k = dict_get d k"
  by (induction d) (auto simp: dict_get_def)

lemma dict_get_map_of: "dict_get d k = Inr v \<longleftrightarrow> map_of d k = Some v"
  by (simp add: dict_get_def split: option.splits)

section \<open>The loop over the catalog\<close>

lemma paso_otro:
  assumes "campo \<noteq> fecha_emision" and "valor_campo U t patron = Inr v"
  shows "paso U t d (campo, patron) = Inr (dict_set d campo v)"
  using assms
  by (cases "re_search U patron t") (simp_all add: paso_def valor_campo_def ebind_def Let_def)

lemma rfc_not_fecha: "u ''RFC'' \<noteq> fecha_emision"
  by (simp add: u_def fecha_emision_def)

lemma paso_fecha:
  assumes "valor_campo U t patron = Inr crudo" and "fecha_emision \<notin> set (map fst d)"
    and "dict_get d (u ''RFC'') = Inr rfc"
  shows "paso U t d (fecha_emision, patron) =
           Inr (d @ [(fecha_emision,
                 if re_search U patron t = None then crudo else py_replace crudo rfc [])])"
proof (cases "re_search U patron t")
  case None
  then show ?thesis using assms(1,2)
    by (simp add: paso_def valor_campo_def dict_set_new)
next
  case (Some m)
  then have v: "valor m = Inr crudo" using assms(1) by (simp add: valor_campo_def)
  have "dict_get (d @ [(fecha_emision, crudo)]) (u ''RFC'') = Inr rfc"
    using assms(3) rfc_not_fecha by (simp add: dict_get_before)
  then show ?thesis using Some v assms(2)
    by (simp add: paso_def ebind_def Let_def dict_set_new dict_get_last dict_set_last)
qed

lemma bucle_append:
  "bucle_campos U t (xs @ ys) d =
     (case bucle_campos U t xs d of Inl e \<Rightarrow> Inl e | Inr d' \<Rightarrow> bucle_campos U t ys d')"
  by (induction xs arbitrary: d) (auto split: sum.splits)

lemma bucle_sin_fecha:
  assumes "\<forall>r \<in> set rs. fst r \<noteq> fecha_emision \<and> (\<exists>v. valor_campo U t (snd r) = Inr v)"
    and "distinct (map fst rs)" and "set (map fst rs) \<inter> set (map fst d) = {}"
  shows "\<exists>d'. bucle_campos U t rs d = Inr (d @ d') \<and>
           list_all2 (\<lambda>r kv. fst kv = fst r \<and> valor_campo U t (snd r) = Inr (snd kv)) rs d'"
  using assms
proof (induction rs arbitrary: d)
  case Nil
  then show ?case by simp
next
  case (Cons r rs)
  obtain campo patron where r: "r = (campo, patron)" by (cases r)
  from Cons.prems(1) r obtain v where nf: "campo \<noteq> fecha_emision"
    and v: "valor_campo U t patron = Inr v" by auto
  have new: "campo \<notin> set (map fst d)" using Cons.prems(3) r by auto
  have step: "paso U t d r = Inr (d @ [(campo, v)])"
    using paso_otro [OF nf v] new r by (simp add: dict_set_new)
  have "\<forall>r \<in> set rs. fst r \<noteq> fecha_emision \<and> (\<exists>v. valor_campo U t (snd r) = Inr v)"
    using Cons.prems(1) by simp
  moreover have "distinct (map fst rs)" using Cons.prems(2) by simp
  moreover have "set (map fst rs) \<inter> set (map fst (d @ [(campo, v)])) = {}"
    using Cons.prems(2,3) r by auto
  ultimately obtain d' where d': "bucle_campos U t rs (d @ [(campo, v)]) = Inr ((d @ [(campo, v)]) @ d')"
    and rel: "list_all2 (\<lambda>r kv. fst kv = fst r \<and> valor_campo U t (snd r) = Inr (snd kv)) rs d'"
    using Cons.IH by blast
  have "bucle_campos U t (r # rs) d = Inr (d @ ((campo, v) # d'))"
    using step d' by simp
  moreover have "list_all2 (\<lambda>r kv. fst kv = fst r \<and> valor_campo U t (snd r) = Inr (snd kv))
                   (r # rs) ((campo, v) # d')"
    using rel r v by simp
  ultimately show ?case by blast
qed


section \<open>\<open>extract_fields\<close> as a whole\<close>

lemma patrones_distinct: "distinct (map fst patrones)"
  by (simp add: patrones_def u_def fecha_emision_def)

lemma patrones_length: "length patrones = 16"
  by (simp add: patrones_def)

lemma patrones_last: "\<exists>pf. patrones = butlast patrones @ [(fecha_emision, pf)]"
  by (simp add: patrones_def)

lemma patrones_rfc: "\<exists>p. (u ''RFC'', p) \<in> set (butlast patrones)"
proof -
  have "(u ''RFC'', seq [lit ''RFC:'', nl, Opt (Grp 1 (Star Word))]) \<in> set (butlast patrones)"
    by (simp add: patrones_def)
  then show ?thesis by blast
qed

lemma butlast_sin_fecha:
  assumes "r \<in> set (butlast patrones)"
  shows "fst r \<noteq> fecha_emision" and "r \<in> set patrones"
proof -
  obtain pf where pf: "patrones = butlast patrones @ [(fecha_emision, pf)]"
    using patrones_last by blast
  have "distinct (map fst (butlast patrones @ [(fecha_emision, pf)]))"
    using patrones_distinct pf by metis
  then have "fecha_emision \<notin> set (map fst (butlast patrones))" by simp
  then show "fst r \<noteq> fecha_emision" using assms by force
  show "r \<in> set patrones" using assms by (rule in_set_butlastD)
qed

lemma rel_lookup:
  assumes "list_all2 (\<lambda>r kv. fst kv = fst r \<and> valor_campo U t (snd r) = Inr (snd kv)) rs d"
    and "distinct (map fst rs)" and "(c, p) \<in> set rs"
  shows "\<exists>v. map_of d c = Some v \<and> valor_campo U t p = Inr v"
  using assms
proof (induction rs d rule: list_all2_induct)
  case Nil
  then show ?case by simp
next
  case (Cons r rs kv d)
  show ?case
  proof (cases "r = (c, p)")
    case True
    then show ?thesis using Cons.hyps(1) by (cases kv) auto
  next
    case False
    then have in_rs: "(c, p) \<in> set rs" using Cons.prems(2) by simp
    then have "c \<in> set (map fst rs)" by force
    moreover have "fst r \<notin> set (map fst rs)" using Cons.prems(1) by simp
    ultimately have "c \<noteq> fst r" by metis
    moreover have "\<exists>v. map_of d c = Some v \<and> valor_campo U t p = Inr v"
      using Cons.IH Cons.prems(1) in_rs by simp
    ultimately show ?thesis using Cons.hyps(1) by (cases kv) auto
  qed
qed

lemma rel_keys:
  "list_all2 (\<lambda>r kv. fst kv = fst r \<and> Q r kv) rs d \<Longrightarrow> map fst d = map fst rs"
  by (induction rs d rule: list_all2_induct) auto

text \<open>
  The result of \<open>extract_fields\<close>: no exception; the fifteen rules before the date of
  issue each store the value of their own pattern on the cleaned text, in the order of
  the catalog; the rule of the date of issue then stores its value with the value of RFC
  replaced by nothing.
\<close>

lemma extract_fields_char:
  "\<exists>t d' pf crudo rfc.
     normalize s = Inr t \<and> patrones = butlast patrones @ [(fecha_emision, pf)] \<and>
     bucle_campos U t (butlast patrones) [] = Inr d' \<and>
     list_all2 (\<lambda>r kv. fst kv = fst r \<and> valor_campo U t (snd r) = Inr (snd kv))
       (butlast patrones) d' \<and>
     map_of d' (u ''RFC'') = Some rfc \<and> valor_campo U t pf = Inr crudo \<and>
     extract_fields U s =
       Inr (d' @ [(fecha_emision,
              if re_search U pf t = None then crudo else py_replace crudo rfc [])])"
proof -
  obtain t where t: "normalize s = Inr t" using normalize_steps by blast
  obtain pf where pf: "patrones = butlast patrones @ [(fecha_emision, pf)]"
    using patrones_last by blast
  have d1: "distinct (map fst (butlast patrones))"
    using patrones_distinct by (metis distinct_butlast map_butlast)
  have good: "\<forall>r \<in> set (butlast patrones).
      fst r \<noteq> fecha_emision \<and> (\<exists>v. valor_campo U t (snd r) = Inr v)"
  proof
    fix r assume r: "r \<in> set (butlast patrones)"
    then have "(fst r, snd r) \<in> set patrones" using butlast_sin_fecha(2) by simp
    then have "\<exists>v. valor_campo U t (snd r) = Inr v" by (rule valor_campo_total)
    then show "fst r \<noteq> fecha_emision \<and> (\<exists>v. valor_campo U t (snd r) = Inr v)"
      using butlast_sin_fecha(1) [OF r] by simp
  qed
  obtain d' where run: "bucle_campos U t (butlast patrones) [] = Inr ([] @ d')"
    and rel: "list_all2 (\<lambda>r kv. fst kv = fst r \<and> valor_campo U t (snd r) = Inr (snd kv))
                (butlast patrones) d'"
    using bucle_sin_fecha [OF good d1, of "[]"] by auto
  have keys: "map fst d' = map fst (butlast patrones)" using rel by (rule rel_keys)
  obtain p where "(u ''RFC'', p) \<in> set (butlast patrones)" using patrones_rfc by blast
  then obtain rfc where rfc: "map_of d' (u ''RFC'') = Some rfc"
    using rel_lookup [OF rel d1] by blast
  have "(fecha_emision, pf) \<in> set patrones" using pf by (metis in_set_conv_decomp)
  then obtain crudo where crudo: "valor_campo U t pf = Inr crudo"
    using valor_campo_total by blast
  have nf: "fecha_emision \<notin> set (map fst d')"
    using keys butlast_sin_fecha(1) by force
  have last: "paso U t d' (fecha_emision, pf) =
      Inr (d' @ [(fecha_emision,
             if re_search U pf t = None then crudo else py_replace crudo rfc [])])"
    using paso_fecha [OF crudo nf] rfc by (simp add: dict_get_map_of)
  have "bucle_campos U t patrones [] =
      (case bucle_campos U t (butlast patrones) [] of
         Inl e \<Rightarrow> Inl e | Inr d \<Rightarrow> bucle_campos U t [(fecha_emision, pf)] d)"
    using bucle_append [of U t "butlast patrones" "[(fecha_emision, pf)]" "[]"] pf by simp
  then have "bucle_campos U t patrones [] =
      Inr (d' @ [(fecha_emision,
             if re_search U pf t = None then crudo else py_replace crudo rfc [])])"
    using run last by simp
  then have "extract_fields U s =
      Inr (d' @ [(fecha_emision,
             if re_search U pf t = None then crudo else py_replace crudo rfc [])])"
    using t by (simp add: extract_fields_def ebind_Inr)
  moreover have "bucle_campos U t (butlast patrones) [] = Inr d'" using run by simp
  ultimately show ?thesis using t pf rel rfc crudo by blast
qed


lemma extract_fields_lookup:
  "\<exists>t d. normalize s = Inr t \<and> extract_fields U s = Inr d \<and> map fst d = map fst patrones \<and>
     (\<forall>c p. (c, p) \<in> set patrones \<longrightarrow> c \<noteq> fecha_emision \<longrightarrow>
        (\<exists>v. dict_get d c = Inr v \<and> valor_campo U t p = Inr v)) \<and>
     (\<forall>pf. (fecha_emision, pf) \<in> set patrones \<longrightarrow>
        (\<exists>crudo rfc. valor_campo U t pf = Inr crudo \<and> dict_get d (u ''RFC'') = Inr rfc \<and>
           dict_get d fecha_emision =
             Inr (if re_search U pf t = None then crudo else py_replace crudo rfc [])))"
proof -
  obtain t d' pf crudo rfc where t: "normalize s = Inr t"
    and pf: "patrones = butlast patrones @ [(fecha_emision, pf)]"
    and rel: "list_all2 (\<lambda>r kv. fst kv = fst r \<and> valor_campo U t (snd r) = Inr (snd kv))
                (butlast patrones) d'"
    and rfc: "map_of d' (u ''RFC'') = Some rfc" and crudo: "valor_campo U t pf = Inr crudo"
    and ef: "extract_fields U s =
       Inr (d' @ [(fecha_emision,
              if re_search U pf t = None then crudo else py_replace crudo rfc [])])"
    using extract_fields_char [of s U] by blast
  define final where "final = (if re_search U pf t = None then crudo else py_replace crudo rfc [])"
  define d where "d = d' @ [(fecha_emision, final)]"
  have keys': "map fst d' = map fst (butlast patrones)" using rel by (rule rel_keys)
  have d1: "distinct (map fst (butlast patrones))"
    using patrones_distinct by (metis distinct_butlast map_butlast)
  have nf: "fecha_emision \<notin> set (map fst d')"
    using keys' butlast_sin_fecha(1) by force
  have "map fst d = map fst (butlast patrones) @ [fecha_emision]"
    using keys' by (simp add: d_def)
  also have "\<dots> = map fst (butlast patrones @ [(fecha_emision, pf)])" by simp
  finally have keys: "map fst d = map fst patrones" using pf by simp
  have others: "\<exists>v. dict_get d c = Inr v \<and> valor_campo U t p = Inr v"
    if "(c, p) \<in> set patrones" "c \<noteq> fecha_emision" for c p
  proof -
    have "(c, p) \<in> set (butlast patrones @ [(fecha_emision, pf)])" using that(1) pf by metis
    then have "(c, p) \<in> set (butlast patrones)" using that(2) by simp
    then obtain v where "map_of d' c = Some v" "valor_campo U t p = Inr v"
      using rel_lookup [OF rel d1] by blast
    then show ?thesis using that(2) by (simp add: d_def dict_get_before dict_get_map_of)
  qed
  have fecha: "\<exists>crudo rfc. valor_campo U t q = Inr crudo \<and> dict_get d (u ''RFC'') = Inr rfc \<and>
           dict_get d fecha_emision =
             Inr (if re_search U q t = None then crudo else py_replace crudo rfc [])"
    if "(fecha_emision, q) \<in> set patrones" for q
  proof -
    have "(fecha_emision, q) \<in> set (butlast patrones @ [(fecha_emision, pf)])"
      using that pf by metis
    moreover have "(fecha_emision, q) \<notin> set (butlast patrones)"
      using butlast_sin_fecha(1) by fastforce
    ultimately have q: "q = pf" by simp
    have "dict_get d (u ''RFC'') = Inr rfc"
      using rfc rfc_not_fecha by (simp add: d_def dict_get_before dict_get_map_of)
    moreover have "dict_get d fecha_emision = Inr final"
      using nf by (simp add: d_def dict_get_last)
    ultimately show ?thesis using crudo q by (auto simp: final_def)
  qed
  have "extract_fields U s = Inr d" using ef by (simp add: d_def final_def)
  then show ?thesis using t keys others fecha by blast
qed

lemma strip_trimmed: "trimmed (strip s)"
proof (cases "strip s = []")
  case True
  then show ?thesis by (simp add: trimmed_def)
next
  case False
  define xs where "xs = dropWhile isspace s"
  define ys where "ys = dropWhile isspace (rev xs)"
  have st: "strip s = rev ys" by (simp add: strip_def xs_def ys_def)
  then have ne: "ys \<noteq> []" using False by simp
  have "\<not> isspace (hd ys)" using ne unfolding ys_def by (rule hd_dropWhile)
  then have l: "\<not> isspace (last (strip s))" using st ne by (simp add: last_rev)
  have "rev xs = takeWhile isspace (rev xs) @ ys" by (simp add: ys_def)
  then have "xs = rev ys @ rev (takeWhile isspace (rev xs))"
    by (metis rev_append rev_rev_ident)
  then have "hd xs = hd (rev ys)" using ne by (metis hd_append2 rev_is_Nil_conv)
  moreover have "xs \<noteq> []" using ne ys_def by auto
  then have "\<not> isspace (hd xs)" unfolding xs_def by (rule hd_dropWhile)
  ultimately have "\<not> isspace (hd (strip s))" using st by simp
  then show ?thesis using l by (simp add: trimmed_def)
qed

lemma trimmed_na: "trimmed (u ''N/A'')"
  by (simp add: trimmed_def u_def isspace_def)

lemma py_in_Nil: "py_in [] s"
  by (induction s) auto

section \<open>The field map\<close>

text \<open>
  Claim C1, as amended. For every text \<open>extract_fields\<close> raises no exception and returns a
  map whose keys are exactly the sixteen field names of the catalog, in the order of the
  catalog. For every field but the date of issue: the value of a rule with one group is
  the sentinel or a text without whitespace at either end, which may be empty; the value
  of a rule with two groups is the sentinel or two such texts joined by one space.
\<close>

theorem extract_fields_total:
  "\<exists>d. extract_fields U s = Inr d \<and> map fst d = map fst patrones \<and>
     distinct (map fst patrones) \<and> length patrones = 16 \<and>
     (\<forall>(campo, patron) \<in> set patrones. \<exists>v. dict_get d campo = Inr v \<and>
        (campo \<noteq> fecha_emision \<longrightarrow>
           (ngroups patron = 1 \<longrightarrow> v = u ''N/A'' \<or> trimmed v) \<and>
           (ngroups patron \<noteq> 1 \<longrightarrow>
              v = u ''N/A'' \<or> (\<exists>a b. trimmed a \<and> trimmed b \<and> v = a @ u '' '' @ b))))"
proof -
  obtain t d where ef: "extract_fields U s = Inr d" and keys: "map fst d = map fst patrones"
    and others: "\<And>c p. (c, p) \<in> set patrones \<Longrightarrow> c \<noteq> fecha_emision \<Longrightarrow>
        \<exists>v. dict_get d c = Inr v \<and> valor_campo U t p = Inr v"
    and fecha: "\<And>pf. (fecha_emision, pf) \<in> set patrones \<Longrightarrow>
        \<exists>crudo rfc. valor_campo U t pf = Inr crudo \<and> dict_get d (u ''RFC'') = Inr rfc \<and>
           dict_get d fecha_emision =
             Inr (if re_search U pf t = None then crudo else py_replace crudo rfc [])"
    using extract_fields_lookup [of s U] by blast
  have "\<exists>v. dict_get d campo = Inr v \<and>
        (campo \<noteq> fecha_emision \<longrightarrow>
           (ngroups patron = 1 \<longrightarrow> v = u ''N/A'' \<or> trimmed v) \<and>
           (ngroups patron \<noteq> 1 \<longrightarrow>
              v = u ''N/A'' \<or> (\<exists>a b. trimmed a \<and> trimmed b \<and> v = a @ u '' '' @ b)))"
    if mem: "(campo, patron) \<in> set patrones" for campo patron
  proof (cases "campo = fecha_emision")
    case True
    then show ?thesis using fecha mem by blast
  next
    case False
    then obtain v where v: "dict_get d campo = Inr v" "valor_campo U t patron = Inr v"
      using others mem by blast
    show ?thesis
    proof (cases "re_search U patron t")
      case None
      then have "v = u ''N/A''" using v(2) by (simp add: valor_campo_def)
      then show ?thesis using v(1) by blast
    next
      case (Some m)
      then have vm: "valor m = Inr v" using v(2) by (simp add: valor_campo_def)
      from valor_match [OF mem Some] obtain a where
        a: "if ngroups patron = 1 then valor m = Inr (strip a)
            else \<exists>b. snd m 2 = Some b \<and> valor m = Inr (strip a @ u '' '' @ strip b)"
        by blast
      show ?thesis
      proof (cases "ngroups patron = 1")
        case True
        then have "v = strip a" using a vm by simp
        then show ?thesis using v(1) True strip_trimmed by blast
      next
        case False
        then obtain b where "v = strip a @ u '' '' @ strip b" using a vm by auto
        then show ?thesis using v(1) False strip_trimmed by blast
      qed
    qed
  qed
  then show ?thesis using ef keys patrones_distinct patrones_length by blast
qed


lemmas eval_campo = valor_campo_def re_search_def valor_def group_def strip_of_def strip_def
  lit_def u_def latin1_def ebind_def isspace_def

lemmas eval_normalize = normalize_def py_split_def py_replace_def index0_def ebind_def u_def
  actividades_def aviso_def pagina_def

text \<open>
  Claim C1 as stated fails: on the text \<open>CURP:\<close> followed by a line feed the pattern of
  CURP matches with an empty group, and the value of the field is the empty text, which
  is neither the sentinel nor a non-empty text.
\<close>

theorem extract_fields_empty_value:
  "ebind (extract_fields latin1 (u ''CURP:\<newline>'')) (\<lambda>d. dict_get d (u ''CURP'')) = Inr []"
proof -
  define p where "p = seq [lit ''CURP:'', nl, Opt (Grp 1 (Star Word))]"
  define c where "c = u ''CURP''"
  define s where "s = u ''CURP:\<newline>''"
  have mem: "(c, p) \<in> set patrones" unfolding p_def c_def by (simp add: patrones_def)
  have nf: "c \<noteq> fecha_emision" unfolding c_def by (simp add: u_def fecha_emision_def)
  have n: "normalize s = Inr s" unfolding s_def by (simp add: eval_normalize)
  have v: "valor_campo latin1 s p = Inr []" unfolding s_def p_def by (simp add: eval_campo)
  obtain t d where t: "normalize s = Inr t" and ef: "extract_fields latin1 s = Inr d"
    and others: "\<forall>c p. (c, p) \<in> set patrones \<longrightarrow> c \<noteq> fecha_emision \<longrightarrow>
        (\<exists>v. dict_get d c = Inr v \<and> valor_campo latin1 t p = Inr v)"
    using extract_fields_lookup [of s latin1] by (elim exE conjE)
  have "t = s" using t n by simp
  then have "\<exists>v. dict_get d c = Inr v \<and> valor_campo latin1 s p = Inr v"
    using others mem nf by blast
  then have "dict_get d c = Inr []" using v by auto
  then have "ebind (extract_fields latin1 s) (\<lambda>d. dict_get d c) = Inr []"
    using ef by (simp add: ebind_Inr)
  then show ?thesis unfolding s_def c_def .
qed

theorem extract_fields_total_witness:
  "(u ''CURP'', seq [lit ''CURP:'', nl, Opt (Grp 1 (Star Word))]) \<in> set patrones \<and>
   u ''CURP'' \<noteq> fecha_emision \<and>
   ngroups (seq [lit ''CURP:'', nl, Opt (Grp 1 (Star Word))]) = 1 \<and>
   (\<exists>d v. extract_fields latin1 (u ''CURP:\<newline>ABCD010101HDFRRL09'') = Inr d \<and>
      map fst d = map fst patrones \<and> dict_get d (u ''CURP'') = Inr v \<and>
      (v = u ''N/A'' \<or> trimmed v))"
proof -
  define p where "p = seq [lit ''CURP:'', nl, Opt (Grp 1 (Star Word))]"
  define c where "c = u ''CURP''"
  define s where "s = u ''CURP:\<newline>ABCD010101HDFRRL09''"
  have mem: "(c, p) \<in> set patrones" unfolding p_def c_def by (simp add: patrones_def)
  have nf: "c \<noteq> fecha_emision" unfolding c_def by (simp add: u_def fecha_emision_def)
  have ng: "ngroups p = 1" unfolding p_def by (simp add: ngroups_lit)
  from extract_fields_total [of latin1 s]
  obtain d where ef: "extract_fields latin1 s = Inr d"
    and keys: "map fst d = map fst patrones"
    and all: "\<forall>(campo, patron) \<in> set patrones. \<exists>v. dict_get d campo = Inr v \<and>
        (campo \<noteq> fecha_emision \<longrightarrow>
           (ngroups patron = 1 \<longrightarrow> v = u ''N/A'' \<or> trimmed v) \<and>
           (ngroups patron \<noteq> 1 \<longrightarrow>
              v = u ''N/A'' \<or> (\<exists>a b. trimmed a \<and> trimmed b \<and> v = a @ u '' '' @ b)))"
    by (elim exE conjE)
  have "\<exists>v. dict_get d c = Inr v \<and>
        (c \<noteq> fecha_emision \<longrightarrow>
           (ngroups p = 1 \<longrightarrow> v = u ''N/A'' \<or> trimmed v) \<and>
           (ngroups p \<noteq> 1 \<longrightarrow>
              v = u ''N/A'' \<or> (\<exists>a b. trimmed a \<and> trimmed b \<and> v = a @ u '' '' @ b)))"
    using bspec [OF all mem] by (simp only: prod.case)
  then obtain v where "dict_get d c = Inr v" and "v = u ''N/A'' \<or> trimmed v"
    using nf ng by blast
  then have "\<exists>d v. extract_fields latin1 s = Inr d \<and>
      map fst d = map fst patrones \<and> dict_get d c = Inr v \<and>
      (v = u ''N/A'' \<or> trimmed v)" using ef keys by blast
  then show ?thesis using mem nf ng unfolding p_def c_def s_def by blast
qed

section \<open>Fields one by one\<close>

text \<open>
  Claim C8. For every text, with \<open>t\<close> the cleaned text: a field whose pattern does not
  match \<open>t\<close> has the sentinel as its value, and the value of every field but the date of
  issue is the value of its own pattern on \<open>t\<close>, whatever the other patterns do.
\<close>

theorem field_isolation:
  "\<exists>t d. normalize s = Inr t \<and> extract_fields U s = Inr d \<and>
     (\<forall>(campo, patron) \<in> set patrones.
        (re_search U patron t = None \<longrightarrow> dict_get d campo = Inr (u ''N/A'')) \<and>
        (campo \<noteq> fecha_emision \<longrightarrow>
           (\<exists>v. valor_campo U t patron = Inr v \<and> dict_get d campo = Inr v)))"
proof -
  obtain t d where t: "normalize s = Inr t" and ef: "extract_fields U s = Inr d"
    and others: "\<And>c p. (c, p) \<in> set patrones \<Longrightarrow> c \<noteq> fecha_emision \<Longrightarrow>
        \<exists>v. dict_get d c = Inr v \<and> valor_campo U t p = Inr v"
    and fecha: "\<And>pf. (fecha_emision, pf) \<in> set patrones \<Longrightarrow>
        \<exists>crudo rfc. valor_campo U t pf = Inr crudo \<and> dict_get d (u ''RFC'') = Inr rfc \<and>
           dict_get d fecha_emision =
             Inr (if re_search U pf t = None then crudo else py_replace crudo rfc [])"
    using extract_fields_lookup [of s U] by blast
  have "(re_search U patron t = None \<longrightarrow> dict_get d campo = Inr (u ''N/A'')) \<and>
        (campo \<noteq> fecha_emision \<longrightarrow>
           (\<exists>v. valor_campo U t patron = Inr v \<and> dict_get d campo = Inr v))"
    if mem: "(campo, patron) \<in> set patrones" for campo patron
  proof (cases "campo = fecha_emision")
    case True
    then obtain crudo rfc where "valor_campo U t patron = Inr crudo"
      "dict_get d fecha_emision =
         Inr (if re_search U patron t = None then crudo else py_replace crudo rfc [])"
      using fecha mem by blast
    then show ?thesis using True by (auto simp: valor_campo_def)
  next
    case False
    then obtain v where "dict_get d campo = Inr v" "valor_campo U t patron = Inr v"
      using others mem by blast
    then show ?thesis by (auto simp: valor_campo_def)
  qed
  then show ?thesis using t ef by blast
qed

theorem field_isolation_witness:
  "(u (''C'' @ [CHR 0xF3] @ ''digo Postal''), snd (patrones ! 4)) \<in> set patrones \<and>
   (u ''CURP'', snd (patrones ! 1)) \<in> set patrones \<and>
   u ''CURP'' \<noteq> fecha_emision \<and>
   normalize (u ''CURP:\<newline>ABCD010101HDFRRL09\<newline>'') = Inr (u ''CURP:\<newline>ABCD010101HDFRRL09\<newline>'') \<and>
   re_search latin1 (snd (patrones ! 4)) (u ''CURP:\<newline>ABCD010101HDFRRL09\<newline>'') = None \<and>
   (\<exists>d. extract_fields latin1 (u ''CURP:\<newline>ABCD010101HDFRRL09\<newline>'') = Inr d \<and>
      dict_get d (u (''C'' @ [CHR 0xF3] @ ''digo Postal'')) = Inr (u ''N/A'') \<and>
      dict_get d (u ''CURP'') = Inr (u ''ABCD010101HDFRRL09''))"
proof -
  define s where "s = u ''CURP:\<newline>ABCD010101HDFRRL09\<newline>''"
  define c4 where "c4 = u (''C'' @ [CHR 0xF3] @ ''digo Postal'')"
  define p4 where "p4 = snd (patrones ! 4)"
  define c1 where "c1 = u ''CURP''"
  define p1 where "p1 = snd (patrones ! 1)"
  define w where "w = u ''ABCD010101HDFRRL09''"
  have m4: "(c4, p4) \<in> set patrones" unfolding c4_def p4_def by (simp add: patrones_def)
  have m1: "(c1, p1) \<in> set patrones" unfolding c1_def p1_def by (simp add: patrones_def)
  have nf: "c1 \<noteq> fecha_emision" unfolding c1_def by (simp add: u_def fecha_emision_def)
  have n: "normalize s = Inr s" unfolding s_def by (simp add: eval_normalize)
  have r4: "re_search latin1 p4 s = None"
    unfolding s_def p4_def by (simp add: patrones_def eval_campo)
  have v1: "valor_campo latin1 s p1 = Inr w"
    unfolding s_def p1_def w_def by (simp add: patrones_def eval_campo)
  from field_isolation [of s latin1] obtain t d where t: "normalize s = Inr t"
    and ef: "extract_fields latin1 s = Inr d"
    and all: "\<forall>(campo, patron) \<in> set patrones.
        (re_search latin1 patron t = None \<longrightarrow> dict_get d campo = Inr (u ''N/A'')) \<and>
        (campo \<noteq> fecha_emision \<longrightarrow>
           (\<exists>v. valor_campo latin1 t patron = Inr v \<and> dict_get d campo = Inr v))"
    by (elim exE conjE)
  have ts: "t = s" using t n by simp
  have i4: "(re_search latin1 p4 t = None \<longrightarrow> dict_get d c4 = Inr (u ''N/A'')) \<and>
        (c4 \<noteq> fecha_emision \<longrightarrow>
           (\<exists>v. valor_campo latin1 t p4 = Inr v \<and> dict_get d c4 = Inr v))"
    using bspec [OF all m4] by (simp only: prod.case)
  have i1: "(re_search latin1 p1 t = None \<longrightarrow> dict_get d c1 = Inr (u ''N/A'')) \<and>
        (c1 \<noteq> fecha_emision \<longrightarrow>
           (\<exists>v. valor_campo latin1 t p1 = Inr v \<and> dict_get d c1 = Inr v))"
    using bspec [OF all m1] by (simp only: prod.case)
  have "dict_get d c4 = Inr (u ''N/A'')" using i4 r4 ts by simp
  moreover have "dict_get d c1 = Inr w" using i1 nf v1 ts by auto
  ultimately have "\<exists>d. extract_fields latin1 s = Inr d \<and>
      dict_get d c4 = Inr (u ''N/A'') \<and> dict_get d c1 = Inr w" using ef by blast
  then show ?thesis using m4 m1 nf n r4 unfolding s_def c4_def p4_def c1_def p1_def w_def
    by blast
qed


section \<open>The date of issue and the RFC\<close>

lemma patrones_fecha_last: "(fecha_emision, snd (last patrones)) \<in> set patrones"
  by (simp add: patrones_def)

lemma patrones_rfc_third: "(u ''RFC'', snd (patrones ! 2)) \<in> set patrones"
  by (simp add: patrones_def)

lemma patrones_unique:
  "(k, p) \<in> set patrones \<Longrightarrow> (k, q) \<in> set patrones \<Longrightarrow> p = q"
  using patrones_distinct by (rule eq_key_imp_eq_value)

text \<open>
  Claim C9. For every text, the rules before the one of the date of issue run without an
  exception, the rule of the date of issue is the last one, and the dictionary that it
  finds has the key RFC; the key is still there after the rule has stored its own value,
  where \<^verbatim>\<open>resultado["RFC"]\<close> is read; \<open>extract_fields\<close> ends without an exception.
\<close>

theorem rfc_key_present:
  "\<exists>t d pf rfc. normalize s = Inr t \<and> patrones = butlast patrones @ [(fecha_emision, pf)] \<and>
     bucle_campos U t (butlast patrones) [] = Inr d \<and> dict_get d (u ''RFC'') = Inr rfc \<and>
     (\<forall>v. dict_get (dict_set d fecha_emision v) (u ''RFC'') = Inr rfc) \<and>
     (\<exists>d'. extract_fields U s = Inr d')"
proof -
  obtain t d pf crudo rfc where t: "normalize s = Inr t"
    and pf: "patrones = butlast patrones @ [(fecha_emision, pf)]"
    and run: "bucle_campos U t (butlast patrones) [] = Inr d"
    and rel: "list_all2 (\<lambda>r kv. fst kv = fst r \<and> valor_campo U t (snd r) = Inr (snd kv))
                (butlast patrones) d"
    and rfc: "map_of d (u ''RFC'') = Some rfc"
    and ef: "extract_fields U s =
       Inr (d @ [(fecha_emision,
              if re_search U pf t = None then crudo else py_replace crudo rfc [])])"
    using extract_fields_char [of s U] by blast
  have "map fst d = map fst (butlast patrones)" using rel by (rule rel_keys)
  then have nf: "fecha_emision \<notin> set (map fst d)" using butlast_sin_fecha(1) by force
  have get: "dict_get d (u ''RFC'') = Inr rfc" using rfc by (simp add: dict_get_map_of)
  have "dict_get (dict_set d fecha_emision v) (u ''RFC'') = Inr rfc" for v
    using nf get rfc_not_fecha by (simp add: dict_set_new dict_get_before)
  then show ?thesis using t pf run get ef by blast
qed

lemma fecha_value:
  assumes "normalize s = Inr t" and "valor_campo U t (snd (last patrones)) = Inr crudo"
    and "valor_campo U t (snd (patrones ! 2)) = Inr rfc"
  shows "\<exists>d. extract_fields U s = Inr d \<and> dict_get d (u ''RFC'') = Inr rfc \<and>
           dict_get d fecha_emision =
             Inr (if re_search U (snd (last patrones)) t = None then crudo
                  else py_replace crudo rfc [])"
proof -
  obtain t' d where t': "normalize s = Inr t'" and ef: "extract_fields U s = Inr d"
    and others: "\<And>c p. (c, p) \<in> set patrones \<Longrightarrow> c \<noteq> fecha_emision \<Longrightarrow>
        \<exists>v. dict_get d c = Inr v \<and> valor_campo U t' p = Inr v"
    and fecha: "\<And>pf. (fecha_emision, pf) \<in> set patrones \<Longrightarrow>
        \<exists>crudo rfc. valor_campo U t' pf = Inr crudo \<and> dict_get d (u ''RFC'') = Inr rfc \<and>
           dict_get d fecha_emision =
             Inr (if re_search U pf t' = None then crudo else py_replace crudo rfc [])"
    using extract_fields_lookup [of s U] by blast
  have tt: "t' = t" using t' assms(1) by simp
  have "dict_get d (u ''RFC'') = Inr rfc"
    using others [OF patrones_rfc_third rfc_not_fecha] assms(3) tt by auto
  moreover from this have "dict_get d fecha_emision =
             Inr (if re_search U (snd (last patrones)) t = None then crudo
                  else py_replace crudo rfc [])"
    using fecha [OF patrones_fecha_last] assms(2) tt by auto
  ultimately show ?thesis using ef by blast
qed

text \<open>
  Claim C3, as amended. For every text no exception is raised. With \<open>crudo\<close> the value
  that the pattern of the date of issue gives on the cleaned text and \<open>rfc\<close> the value of
  the field RFC: when the pattern of RFC matched, the final value of the date of issue
  is \<open>crudo\<close> with the occurrences of \<open>rfc\<close>, found from the left without overlap,
  replaced by nothing in one pass (the sentinel when the pattern of the date did not
  match); and whenever \<open>rfc\<close> does not occur in \<open>crudo\<close>, as when RFC is the sentinel and
  the line of the date has no such text, the final value is \<open>crudo\<close>, unmodified.
\<close>

theorem fecha_rfc_replace:
  "\<exists>t d pf prfc crudo rfc.
     normalize s = Inr t \<and> (fecha_emision, pf) \<in> set patrones \<and>
     (u ''RFC'', prfc) \<in> set patrones \<and> extract_fields U s = Inr d \<and>
     valor_campo U t pf = Inr crudo \<and> valor_campo U t prfc = Inr rfc \<and>
     dict_get d (u ''RFC'') = Inr rfc \<and>
     (re_search U prfc t \<noteq> None \<longrightarrow>
        dict_get d fecha_emision =
          Inr (if re_search U pf t = None then crudo else py_replace crudo rfc [])) \<and>
     (\<not> py_in rfc crudo \<longrightarrow> dict_get d fecha_emision = Inr crudo)"
proof -
  obtain t where t: "normalize s = Inr t" using normalize_steps by blast
  obtain crudo where crudo: "valor_campo U t (snd (last patrones)) = Inr crudo"
    using valor_campo_total [OF patrones_fecha_last] by blast
  obtain rfc where rfc: "valor_campo U t (snd (patrones ! 2)) = Inr rfc"
    using valor_campo_total [OF patrones_rfc_third] by blast
  obtain d where ef: "extract_fields U s = Inr d" and g: "dict_get d (u ''RFC'') = Inr rfc"
    and f: "dict_get d fecha_emision =
             Inr (if re_search U (snd (last patrones)) t = None then crudo
                  else py_replace crudo rfc [])"
    using fecha_value [OF t crudo rfc] by blast
  have "dict_get d fecha_emision = Inr crudo" if "\<not> py_in rfc crudo"
  proof -
    have "rfc \<noteq> []" using that py_in_Nil by auto
    then have "py_replace crudo rfc [] = crudo" using that by (rule py_replace_absent)
    then show ?thesis using f by simp
  qed
  then show ?thesis
    using t patrones_fecha_last patrones_rfc_third ef crudo rfc g f by blast
qed


text \<open>
  Claim C3 as stated fails twice. With RFC = AB and the line AABB after the heading of
  the date, the match of the date contains the RFC, one pass of \<open>replace\<close> takes the inner
  AB out and the final value AB (and a space) still contains the RFC. With no RFC in the
  text and the line N/A after the heading, the RFC is the sentinel, the value of the date
  is N/A and a space, and the final value is the space alone: it was modified.
\<close>

theorem fecha_rfc_counterexample:
  "valor_campo latin1 (u (''RFC:\<newline>AB\<newline>Lugar y Fecha de Emisi'' @ [CHR 0xF3] @ ''n\<newline>AABB''))
     (snd (last patrones)) = Inr (u ''AABB '') \<and>
   py_in (u ''AB'') (u ''AABB '') \<and>
   ebind (extract_fields latin1
       (u (''RFC:\<newline>AB\<newline>Lugar y Fecha de Emisi'' @ [CHR 0xF3] @ ''n\<newline>AABB'')))
     (\<lambda>d. dict_get d (u ''RFC'')) = Inr (u ''AB'') \<and>
   ebind (extract_fields latin1
       (u (''RFC:\<newline>AB\<newline>Lugar y Fecha de Emisi'' @ [CHR 0xF3] @ ''n\<newline>AABB'')))
     (\<lambda>d. dict_get d fecha_emision) = Inr (u ''AB '') \<and>
   py_in (u ''AB'') (u ''AB '') \<and>
   valor_campo latin1 (u (''Lugar y Fecha de Emisi'' @ [CHR 0xF3] @ ''n\<newline>N/A''))
     (snd (last patrones)) = Inr (u ''N/A '') \<and>
   ebind (extract_fields latin1 (u (''Lugar y Fecha de Emisi'' @ [CHR 0xF3] @ ''n\<newline>N/A'')))
     (\<lambda>d. dict_get d (u ''RFC'')) = Inr (u ''N/A'') \<and>
   ebind (extract_fields latin1 (u (''Lugar y Fecha de Emisi'' @ [CHR 0xF3] @ ''n\<newline>N/A'')))
     (\<lambda>d. dict_get d fecha_emision) = Inr (u '' '')"
proof -
  define sa where "sa = u (''RFC:\<newline>AB\<newline>Lugar y Fecha de Emisi'' @ [CHR 0xF3] @ ''n\<newline>AABB'')"
  define sb where "sb = u (''Lugar y Fecha de Emisi'' @ [CHR 0xF3] @ ''n\<newline>N/A'')"
  define pf where "pf = snd (last patrones)"
  define pr where "pr = snd (patrones ! 2)"
  have na: "normalize sa = Inr sa" unfolding sa_def by (simp add: eval_normalize)
  have nb: "normalize sb = Inr sb" unfolding sb_def by (simp add: eval_normalize)
  have fa: "valor_campo latin1 sa pf = Inr (u ''AABB '')"
    unfolding sa_def pf_def by (simp add: patrones_def eval_campo)
  have ra: "valor_campo latin1 sa pr = Inr (u ''AB'')"
    unfolding sa_def pr_def by (simp add: patrones_def eval_campo)
  have ma: "re_search latin1 pf sa \<noteq> None"
    unfolding sa_def pf_def by (simp add: patrones_def eval_campo)
  have fb: "valor_campo latin1 sb pf = Inr (u ''N/A '')"
    unfolding sb_def pf_def by (simp add: patrones_def eval_campo)
  have rb: "valor_campo latin1 sb pr = Inr (u ''N/A'')"
    unfolding sb_def pr_def by (simp add: patrones_def eval_campo)
  have mb: "re_search latin1 pf sb \<noteq> None"
    unfolding sb_def pf_def by (simp add: patrones_def eval_campo)
  have pa: "py_replace (u ''AABB '') (u ''AB'') [] = u ''AB ''"
    by (simp add: py_replace_def u_def)
  have pb: "py_replace (u ''N/A '') (u ''N/A'') [] = u '' ''"
    by (simp add: py_replace_def u_def)
  have i1: "py_in (u ''AB'') (u ''AABB '')" by (simp add: u_def)
  have i2: "py_in (u ''AB'') (u ''AB '')" by (simp add: u_def)
  obtain da where da: "extract_fields latin1 sa = Inr da"
    "dict_get da (u ''RFC'') = Inr (u ''AB'')" "dict_get da fecha_emision = Inr (u ''AB '')"
    using fecha_value [OF na, of latin1 "u ''AABB ''" "u ''AB''"] fa ra ma pa
    unfolding pf_def pr_def by auto
  obtain db where db: "extract_fields latin1 sb = Inr db"
    "dict_get db (u ''RFC'') = Inr (u ''N/A'')" "dict_get db fecha_emision = Inr (u '' '')"
    using fecha_value [OF nb, of latin1 "u ''N/A ''" "u ''N/A''"] fb rb mb pb
    unfolding pf_def pr_def by auto
  have "valor_campo latin1 sa pf = Inr (u ''AABB '') \<and>
    py_in (u ''AB'') (u ''AABB '') \<and>
    ebind (extract_fields latin1 sa) (\<lambda>d. dict_get d (u ''RFC'')) = Inr (u ''AB'') \<and>
    ebind (extract_fields latin1 sa) (\<lambda>d. dict_get d fecha_emision) = Inr (u ''AB '') \<and>
    py_in (u ''AB'') (u ''AB '') \<and>
    valor_campo latin1 sb pf = Inr (u ''N/A '') \<and>
    ebind (extract_fields latin1 sb) (\<lambda>d. dict_get d (u ''RFC'')) = Inr (u ''N/A'') \<and>
    ebind (extract_fields latin1 sb) (\<lambda>d. dict_get d fecha_emision) = Inr (u '' '')"
    using fa i1 i2 fb da db by (simp add: ebind_Inr)
  then show ?thesis unfolding sa_def sb_def pf_def .
qed

theorem fecha_rfc_replace_witness:
  "re_search latin1 (snd (patrones ! 2))
     (u (''RFC:\<newline>ABC\<newline>Lugar y Fecha de Emisi'' @ [CHR 0xF3] @ ''n\<newline>CDMX ABC'')) \<noteq> None \<and>
   (\<exists>d. extract_fields latin1
           (u (''RFC:\<newline>ABC\<newline>Lugar y Fecha de Emisi'' @ [CHR 0xF3] @ ''n\<newline>CDMX ABC'')) = Inr d \<and>
        dict_get d (u ''RFC'') = Inr (u ''ABC'') \<and>
        dict_get d fecha_emision = Inr (u ''CDMX  '')) \<and>
   \<not> py_in (u ''N/A'') (u ''CDMX '') \<and>
   (\<exists>d. extract_fields latin1 (u (''Lugar y Fecha de Emisi'' @ [CHR 0xF3] @ ''n\<newline>CDMX'')) = Inr d \<and>
        dict_get d (u ''RFC'') = Inr (u ''N/A'') \<and>
        dict_get d fecha_emision = Inr (u ''CDMX ''))"
proof -
  define sa where "sa = u (''RFC:\<newline>ABC\<newline>Lugar y Fecha de Emisi'' @ [CHR 0xF3] @ ''n\<newline>CDMX ABC'')"
  define sb where "sb = u (''Lugar y Fecha de Emisi'' @ [CHR 0xF3] @ ''n\<newline>CDMX'')"
  define pf where "pf = snd (last patrones)"
  define pr where "pr = snd (patrones ! 2)"
  have na: "normalize sa = Inr sa" unfolding sa_def by (simp add: eval_normalize)
  have nb: "normalize sb = Inr sb" unfolding sb_def by (simp add: eval_normalize)
  have fa: "valor_campo latin1 sa pf = Inr (u ''CDMX ABC '')"
    unfolding sa_def pf_def by (simp add: patrones_def eval_campo)
  have ra: "valor_campo latin1 sa pr = Inr (u ''ABC'')"
    unfolding sa_def pr_def by (simp add: patrones_def eval_campo)
  have ma: "re_search latin1 pf sa \<noteq> None"
    unfolding sa_def pf_def by (simp add: patrones_def eval_campo)
  have mr: "re_search latin1 pr sa \<noteq> None"
    unfolding sa_def pr_def by (simp add: patrones_def eval_campo)
  have fb: "valor_campo latin1 sb pf = Inr (u ''CDMX '')"
    unfolding sb_def pf_def by (simp add: patrones_def eval_campo)
  have rb: "valor_campo latin1 sb pr = Inr (u ''N/A'')"
    unfolding sb_def pr_def by (simp add: patrones_def eval_campo)
  have pa: "py_replace (u ''CDMX ABC '') (u ''ABC'') [] = u ''CDMX  ''"
    by (simp add: py_replace_def u_def)
  have ni: "\<not> py_in (u ''N/A'') (u ''CDMX '')" by (simp add: u_def)
  have mf: "(fecha_emision, pf) \<in> set patrones" unfolding pf_def by (rule patrones_fecha_last)
  have mrfc: "(u ''RFC'', pr) \<in> set patrones" unfolding pr_def by (rule patrones_rfc_third)
  have a: "\<exists>d. extract_fields latin1 sa = Inr d \<and> dict_get d (u ''RFC'') = Inr (u ''ABC'') \<and>
        dict_get d fecha_emision = Inr (u ''CDMX  '')"
  proof -
    from fecha_rfc_replace [of sa latin1]
    obtain t d pf' pr' crudo rfc where t: "normalize sa = Inr t"
      and m1: "(fecha_emision, pf') \<in> set patrones" and m2: "(u ''RFC'', pr') \<in> set patrones"
      and ef: "extract_fields latin1 sa = Inr d"
      and c: "valor_campo latin1 t pf' = Inr crudo" and r: "valor_campo latin1 t pr' = Inr rfc"
      and g: "dict_get d (u ''RFC'') = Inr rfc"
      and h1: "re_search latin1 pr' t \<noteq> None \<longrightarrow>
        dict_get d fecha_emision =
          Inr (if re_search latin1 pf' t = None then crudo else py_replace crudo rfc [])"
      by (elim exE conjE)
    have e: "t = sa" "pf' = pf" "pr' = pr"
      using t na patrones_unique [OF m1 mf] patrones_unique [OF m2 mrfc] by simp_all
    have "crudo = u ''CDMX ABC ''" "rfc = u ''ABC''" using c r fa ra e by simp_all
    then show ?thesis using ef g h1 e mr ma pa by auto
  qed
  have b: "\<exists>d. extract_fields latin1 sb = Inr d \<and> dict_get d (u ''RFC'') = Inr (u ''N/A'') \<and>
        dict_get d fecha_emision = Inr (u ''CDMX '')"
  proof -
    from fecha_rfc_replace [of sb latin1]
    obtain t d pf' pr' crudo rfc where t: "normalize sb = Inr t"
      and m1: "(fecha_emision, pf') \<in> set patrones" and m2: "(u ''RFC'', pr') \<in> set patrones"
      and ef: "extract_fields latin1 sb = Inr d"
      and c: "valor_campo latin1 t pf' = Inr crudo" and r: "valor_campo latin1 t pr' = Inr rfc"
      and g: "dict_get d (u ''RFC'') = Inr rfc"
      and h2: "\<not> py_in rfc crudo \<longrightarrow> dict_get d fecha_emision = Inr crudo"
      by (elim exE conjE)
    have e: "t = sb" "pf' = pf" "pr' = pr"
      using t nb patrones_unique [OF m1 mf] patrones_unique [OF m2 mrfc] by simp_all
    have "crudo = u ''CDMX ''" "rfc = u ''N/A''" using c r fb rb e by simp_all
    then show ?thesis using ef g h2 ni by auto
  qed
  have "re_search latin1 pr sa \<noteq> None \<and>
    (\<exists>d. extract_fields latin1 sa = Inr d \<and> dict_get d (u ''RFC'') = Inr (u ''ABC'') \<and>
        dict_get d fecha_emision = Inr (u ''CDMX  '')) \<and>
    \<not> py_in (u ''N/A'') (u ''CDMX '') \<and>
    (\<exists>d. extract_fields latin1 sb = Inr d \<and> dict_get d (u ''RFC'') = Inr (u ''N/A'') \<and>
        dict_get d fecha_emision = Inr (u ''CDMX ''))"
    using mr a ni b by blast
  then show ?thesis unfolding sa_def sb_def pr_def .
qed


section \<open>The batch\<close>

lemma construir_eq:
  assumes "distinct ks" and "set ks \<subseteq> set (map fst d)"
    and "set ks \<inter> set (map fst nuevo) = {}"
  shows "construir d ks nuevo = Inr (nuevo @ map (\<lambda>k. (k, the (map_of d k))) ks)"
  using assms
proof (induction ks arbitrary: nuevo)
  case Nil
  then show ?case by simp
next
  case (Cons k ks)
  from Cons.prems(2) obtain v where v: "map_of d k = Some v"
    by (metis list.set_intros(1) map_of_eq_None_iff not_Some_eq set_map subsetD)
  have new: "k \<notin> set (map fst nuevo)" using Cons.prems(3) by auto
  have "construir d ks (nuevo @ [(k, v)])
        = Inr ((nuevo @ [(k, v)]) @ map (\<lambda>k. (k, the (map_of d k))) ks)"
    using Cons.prems by (intro Cons.IH) auto
  then show ?case using v new by (simp add: dict_get_def ebind_Inr dict_set_new)
qed

lemma map_of_rebuild:
  "distinct (map fst d) \<Longrightarrow> map (\<lambda>k. (k, the (map_of d k))) (map fst d) = d"
proof (induction d)
  case Nil
  then show ?case by simp
next
  case (Cons kv d)
  obtain k v where kv: "kv = (k, v)" by (cases kv)
  define F where "F = (\<lambda>k'. (k', the (map_of (kv # d) k')))"
  have "map F (map fst d) = map (\<lambda>k'. (k', the (map_of d k'))) (map fst d)"
    unfolding F_def using Cons.prems kv by (intro map_cong) auto
  moreover have "map (\<lambda>k'. (k', the (map_of d k'))) (map fst d) = d"
    using Cons.IH Cons.prems by simp
  ultimately have h: "map F (map fst d) = d" by (rule trans)
  have "F k = (k, v)" by (simp add: F_def kv)
  then have "map F (map fst (kv # d)) = kv # d" using h kv by simp
  then show ?case unfolding F_def .
qed

lemma archivo_no_campo: "u ''Archivo'' \<notin> set (map fst patrones)"
  by (simp add: patrones_def u_def fecha_emision_def)

lemma registro_eq:
  assumes "leer f = Inr t"
  shows "registro U f t = Inr (registro_de U leer f)"
    and "map fst (registro_de U leer f) = u ''Archivo'' # map fst patrones"
    and "dict_get (registro_de U leer f) (u ''Archivo'') = Inr f"
proof -
  obtain d where ef: "extract_fields U t = Inr d" and keys: "map fst d = map fst patrones"
    using extract_fields_lookup [of t U] by blast
  have dd: "distinct (map fst d)" using keys patrones_distinct by simp
  have na: "u ''Archivo'' \<notin> set (map fst d)" using keys archivo_no_campo by simp
  define d2 where "d2 = d @ [(u ''Archivo'', f)]"
  have set2: "dict_set d (u ''Archivo'') f = d2" using na by (simp add: d2_def dict_set_new)
  have ks: "u ''Archivo'' # filter (\<lambda>key. key \<noteq> u ''Archivo'') (map fst d2)
            = u ''Archivo'' # map fst d"
    using na by (force simp: d2_def filter_id_conv)
  have "construir d2 (u ''Archivo'' # map fst d) []
        = Inr ([] @ map (\<lambda>k. (k, the (map_of d2 k))) (u ''Archivo'' # map fst d))"
    using dd na by (intro construir_eq) (auto simp: d2_def)
  moreover have "the (map_of d2 (u ''Archivo'')) = f"
  proof -
    have "map_of d (u ''Archivo'') = None" using na by (simp add: map_of_eq_None_iff)
    then show ?thesis by (simp add: d2_def map_add_def)
  qed
  moreover have "map (\<lambda>k. (k, the (map_of d2 k))) (map fst d) = d"
  proof -
    have "map_of d2 k = map_of d k" if "k \<in> set (map fst d)" for k
    proof -
      from that na have "k \<noteq> u ''Archivo''" by blast
      then show ?thesis by (simp add: d2_def map_add_def split: option.splits)
    qed
    then have "map (\<lambda>k. (k, the (map_of d2 k))) (map fst d)
          = map (\<lambda>k. (k, the (map_of d k))) (map fst d)"
      by (intro map_cong) simp_all
    from this map_of_rebuild [OF dd] show ?thesis by (rule trans)
  qed
  ultimately have "construir d2 (u ''Archivo'' # map fst d) [] = Inr ((u ''Archivo'', f) # d)"
    by simp
  then have "registro U f t = Inr ((u ''Archivo'', f) # d)"
    using ef set2 ks by (simp add: registro_def ebind_Inr Let_def)
  moreover have rd: "registro_de U leer f = (u ''Archivo'', f) # d"
    using assms ef by (simp add: registro_de_def)
  ultimately show "registro U f t = Inr (registro_de U leer f)" by simp
  show "map fst (registro_de U leer f) = u ''Archivo'' # map fst patrones"
    using rd keys by simp
  show "dict_get (registro_de U leer f) (u ''Archivo'') = Inr f"
    using rd by (simp add: dict_get_def)
qed

lemma bucle_ok:
  assumes "\<forall>x \<in> set fs. \<exists>t. leer (snd x) = Inr t"
  shows "bucle_archivos U leer n fs e =
    Completado (e\<lparr>leidos := leidos e @ map snd fs,
      resultados := resultados e @ map (registro_de U leer) (filter (es_fiscal leer) (map snd fs)),
      progreso := progreso e @ map (\<lambda>x. (fst x, n)) fs\<rparr>)"
  using assms
proof (induction fs arbitrary: e)
  case Nil
  then show ?case by simp
next
  case (Cons x fs)
  obtain i f where x: "x = (i, f)" by (cases x)
  from Cons.prems x obtain t where t: "leer f = Inr t" by auto
  have rest: "\<forall>x \<in> set fs. \<exists>t. leer (snd x) = Inr t" using Cons.prems by simp
  show ?case
  proof (cases "is_fiscal t")
    case True
    then have "es_fiscal leer f" using t by (simp add: es_fiscal_def)
    then show ?thesis
      using x t True registro_eq(1) [of leer _ t U] Cons.IH [OF rest]
      by (simp add: Let_def)
  next
    case False
    then have "\<not> es_fiscal leer f" using t by (simp add: es_fiscal_def)
    then show ?thesis
      using x t False Cons.IH [OF rest] by (simp add: Let_def)
  qed
qed

lemma bucle_abort:
  assumes "\<forall>x \<in> set pre. \<exists>t. leer (snd x) = Inr t" and "leer f = Inl err"
  shows "bucle_archivos U leer n (pre @ (i, f) # post) e =
    Abortado err (e\<lparr>leidos := leidos e @ map snd pre @ [f],
      resultados := resultados e @ map (registro_de U leer) (filter (es_fiscal leer) (map snd pre)),
      progreso := progreso e @ map (\<lambda>x. (fst x, n)) pre\<rparr>)"
  using assms(1)
proof (induction pre arbitrary: e)
  case Nil
  then show ?case using assms(2) by (simp add: Let_def)
next
  case (Cons x pre)
  obtain j g where x: "x = (j, g)" by (cases x)
  from Cons.prems x obtain t where t: "leer g = Inr t" by auto
  have rest: "\<forall>x \<in> set pre. \<exists>t. leer (snd x) = Inr t" using Cons.prems by simp
  show ?case
  proof (cases "is_fiscal t")
    case True
    then have "es_fiscal leer g" using t by (simp add: es_fiscal_def)
    then show ?thesis
      using x t True registro_eq(1) [of leer _ t U] Cons.IH [OF rest]
      by (simp add: Let_def)
  next
    case False
    then have "\<not> es_fiscal leer g" using t by (simp add: es_fiscal_def)
    then show ?thesis
      using x t False Cons.IH [OF rest] by (simp add: Let_def)
  qed
qed


lemma enumerate_snd: "map snd (zip [1..<Suc (length xs)] xs) = xs"
  by (simp del: upt_Suc)

lemma zip_total:
  "length is = length xs \<Longrightarrow> map (\<lambda>x. (fst x, n)) (zip is xs) = map (\<lambda>i. (i, n)) is"
  by (induction "is" xs rule: list_induct2) auto

lemma enumerate_total:
  "map (\<lambda>x. (fst x, n)) (zip [1..<Suc (length xs)] xs) = map (\<lambda>i. (i, n)) [1..<Suc (length xs)]"
  by (rule zip_total) (simp del: upt_Suc)

text \<open>When every candidate can be read, the loop ends and has one Record per fiscal one.\<close>

lemma process_ok:
  assumes "\<forall>f \<in> set (archivos_pdf U listado). \<exists>t. leer f = Inr t"
    and "archivos_pdf U listado \<noteq> []"
  shows "process_pdfs U leer listado =
    Completado \<lparr>leidos = archivos_pdf U listado,
      resultados = map (registro_de U leer) (filter (es_fiscal leer) (archivos_pdf U listado)),
      progreso = map (\<lambda>i. (i, length (archivos_pdf U listado)))
                   [1..<Suc (length (archivos_pdf U listado))]\<rparr>"
proof -
  define xs where "xs = archivos_pdf U listado"
  define fs where "fs = zip [1..<Suc (length xs)] xs"
  have snd: "map snd fs = xs" unfolding fs_def by (rule enumerate_snd)
  then have "\<forall>x \<in> set fs. \<exists>t. leer (snd x) = Inr t"
    using assms(1) unfolding xs_def by (metis image_eqI list.set_map)
  from bucle_ok [OF this, of U "length xs" "\<lparr>leidos = [], resultados = [], progreso = []\<rparr>"]
  have "bucle_archivos U leer (length xs) fs \<lparr>leidos = [], resultados = [], progreso = []\<rparr> =
    Completado \<lparr>leidos = xs,
      resultados = map (registro_de U leer) (filter (es_fiscal leer) xs),
      progreso = map (\<lambda>i. (i, length xs)) [1..<Suc (length xs)]\<rparr>"
    using snd enumerate_total [of "length xs" xs] unfolding fs_def by (simp del: upt_Suc)
  moreover have "length xs \<noteq> 0" using assms(2) unfolding xs_def by simp
  ultimately show ?thesis unfolding process_pdfs_def Let_def xs_def fs_def by (simp del: upt_Suc)
qed

text \<open>When a candidate cannot be read, the exception ends the loop at that file.\<close>

lemma process_abort:
  assumes "archivos_pdf U listado = pre @ f # post"
    and "\<forall>g \<in> set pre. \<exists>t. leer g = Inr t" and "leer f = Inl err"
  shows "\<exists>e. process_pdfs U leer listado = Abortado err e \<and> leidos e = pre @ [f] \<and>
           resultados e = map (registro_de U leer) (filter (es_fiscal leer) pre) \<and>
           length (progreso e) = length pre \<and>
           (\<forall>x \<in> set (progreso e). snd x = length (pre @ f # post))"
proof -
  define xs where "xs = archivos_pdf U listado"
  define fs where "fs = zip [1..<Suc (length xs)] xs"
  have "map snd fs = pre @ f # post"
    unfolding fs_def using enumerate_snd [of xs] assms(1) xs_def by simp
  then obtain fs1 x fs2 where fs: "fs = fs1 @ x # fs2" and p1: "map snd fs1 = pre"
    and px: "snd x = f"
    by (auto simp: map_eq_append_conv map_eq_Cons_conv)
  obtain i where x: "x = (i, f)" using px by (cases x) auto
  have ok1: "\<forall>x \<in> set fs1. \<exists>t. leer (snd x) = Inr t"
    using assms(2) p1 by (metis image_eqI list.set_map)
  define e where "e = \<lparr>leidos = [] @ map snd fs1 @ [f],
      resultados = [] @ map (registro_de U leer) (filter (es_fiscal leer) (map snd fs1)),
      progreso = [] @ map (\<lambda>x. (fst x, length xs)) fs1\<rparr>"
  have "bucle_archivos U leer (length xs) fs \<lparr>leidos = [], resultados = [], progreso = []\<rparr>
        = Abortado err e"
    using bucle_abort [OF ok1 assms(3), of U "length xs" i fs2
        "\<lparr>leidos = [], resultados = [], progreso = []\<rparr>"] fs x
    unfolding e_def by simp
  moreover have "length xs \<noteq> 0" using assms(1) unfolding xs_def by simp
  ultimately have "process_pdfs U leer listado = Abortado err e"
    unfolding process_pdfs_def Let_def xs_def fs_def by (simp del: upt_Suc)
  moreover have "leidos e = pre @ [f]" using p1 by (simp add: e_def)
  moreover have "resultados e = map (registro_de U leer) (filter (es_fiscal leer) pre)"
    using p1 by (simp add: e_def)
  moreover have "length (progreso e) = length pre" using p1 by (auto simp: e_def)
  moreover have "\<forall>x \<in> set (progreso e). snd x = length (pre @ f # post)"
    using assms(1) by (auto simp: e_def xs_def)
  ultimately show ?thesis by blast
qed

lemma first_failure:
  "(\<forall>f \<in> set xs. \<exists>t. leer f = Inr t) \<or>
   (\<exists>pre f post err. xs = pre @ f # post \<and> (\<forall>g \<in> set pre. \<exists>t. leer g = Inr t) \<and>
      leer f = Inl err)"
proof (cases "\<exists>f \<in> set xs. \<not> (\<exists>t. leer f = Inr t)")
  case True
  then obtain pre f post where "xs = pre @ f # post" "\<not> (\<exists>t. leer f = Inr t)"
    "\<forall>g \<in> set pre. \<not> \<not> (\<exists>t. leer g = Inr t)"
    using split_list_first_prop [of xs "\<lambda>f. \<not> (\<exists>t. leer f = Inr t)"] by blast
  moreover from this obtain err where "leer f = Inl err" by (cases "leer f") auto
  ultimately show ?thesis by blast
next
  case False
  then show ?thesis by blast
qed

lemma registros_shape:
  assumes "r \<in> set (map (registro_de U leer) (filter (es_fiscal leer) xs))"
  shows "\<exists>f \<in> set xs. map fst r = u ''Archivo'' # map fst patrones \<and>
           dict_get r (u ''Archivo'') = Inr f"
proof -
  from assms obtain f where f: "f \<in> set xs" "es_fiscal leer f" "r = registro_de U leer f"
    by auto
  then obtain t where "leer f = Inr t" by (cases "leer f") (auto simp: es_fiscal_def)
  then have "map fst r = u ''Archivo'' # map fst patrones"
    and "dict_get r (u ''Archivo'') = Inr f"
    using registro_eq(2,3) [of leer f t U] f(3) by simp_all
  then show ?thesis using f(1) by (intro bexI [of _ f] conjI)
qed

lemma registros_archivos:
  "map (\<lambda>r. dict_get r (u ''Archivo'')) (map (registro_de U leer) (filter (es_fiscal leer) xs))
     = map Inr (filter (es_fiscal leer) xs)"
proof -
  have "dict_get (registro_de U leer f) (u ''Archivo'') = Inr f" if "es_fiscal leer f" for f
  proof -
    from that obtain t where "leer f = Inr t" by (cases "leer f") (auto simp: es_fiscal_def)
    then show ?thesis by (rule registro_eq(3))
  qed
  then show ?thesis by (induction xs) auto
qed


lemmas eval_batch = archivos_pdf_def endswith_def suffix_to_prefix latin1_def u_def

section \<open>The Result Collection\<close>

text \<open>
  Claim C7. When the loop of \<open>process_pdfs\<close> ends, the Result Collection has exactly one
  Record for each candidate whose text has the marker, in the order of the candidates;
  every Record has the key of the file name first and then the field keys of the
  catalog, so all Records have the same keys.
\<close>

theorem records_in_order:
  assumes "process_pdfs U leer listado = Completado e"
  shows "resultados e =
           map (registro_de U leer) (filter (es_fiscal leer) (archivos_pdf U listado)) \<and>
         (\<forall>r \<in> set (resultados e). map fst r = u ''Archivo'' # map fst patrones) \<and>
         map (\<lambda>r. dict_get r (u ''Archivo'')) (resultados e) =
           map Inr (filter (es_fiscal leer) (archivos_pdf U listado))"
proof -
  define xs where "xs = archivos_pdf U listado"
  have "\<forall>f \<in> set xs. \<exists>t. leer f = Inr t"
  proof (rule ccontr)
    assume "\<not> (\<forall>f \<in> set xs. \<exists>t. leer f = Inr t)"
    then obtain pre f post err where "xs = pre @ f # post"
      "\<forall>g \<in> set pre. \<exists>t. leer g = Inr t" "leer f = Inl err"
      using first_failure [of xs leer] by blast
    then show False using process_abort [of U listado pre f post leer err] assms
      unfolding xs_def by auto
  qed
  moreover have "xs \<noteq> []"
    using assms unfolding xs_def process_pdfs_def Let_def by (auto split: if_splits)
  ultimately have
    "process_pdfs U leer listado =
       Completado \<lparr>leidos = xs,
         resultados = map (registro_de U leer) (filter (es_fiscal leer) xs),
         progreso = map (\<lambda>i. (i, length xs)) [1..<Suc (length xs)]\<rparr>"
    unfolding xs_def by (rule process_ok)
  then have r: "resultados e = map (registro_de U leer) (filter (es_fiscal leer) xs)"
    using assms by auto
  moreover have "\<forall>r \<in> set (resultados e). map fst r = u ''Archivo'' # map fst patrones"
  proof
    fix x assume "x \<in> set (resultados e)"
    then have "x \<in> set (map (registro_de U leer) (filter (es_fiscal leer) xs))"
      using r by simp
    from registros_shape [OF this] show "map fst x = u ''Archivo'' # map fst patrones"
      by blast
  qed
  moreover have "map (\<lambda>r. dict_get r (u ''Archivo'')) (resultados e) =
           map Inr (filter (es_fiscal leer) xs)"
    unfolding r by (rule registros_archivos)
  ultimately show ?thesis unfolding xs_def by blast
qed

theorem records_in_order_witness:
  "\<exists>e. process_pdfs latin1 (\<lambda>f. if f = u ''c.pdf'' then Inr (u ''hola'') else Inr marca_fiscal)
          [u ''a.pdf'', u ''c.pdf'', u ''notas.txt'', u ''B.PDF''] = Completado e \<and>
        map (\<lambda>r. dict_get r (u ''Archivo'')) (resultados e) = [Inr (u ''a.pdf''), Inr (u ''B.PDF'')] \<and>
        list_all (\<lambda>r. map fst r = u ''Archivo'' # map fst patrones) (resultados e)"
proof -
  define leer :: "str \<Rightarrow> error + str" where
    "leer = (\<lambda>f. if f = u ''c.pdf'' then Inr (u ''hola'') else Inr marca_fiscal)"
  define listado where "listado = [u ''a.pdf'', u ''c.pdf'', u ''notas.txt'', u ''B.PDF'']"
  have xs: "archivos_pdf latin1 listado = [u ''a.pdf'', u ''c.pdf'', u ''B.PDF'']"
    unfolding listado_def by (simp add: eval_batch)
  have ok: "\<forall>f \<in> set (archivos_pdf latin1 listado). \<exists>t. leer f = Inr t"
    by (simp add: leer_def)
  have ne: "archivos_pdf latin1 listado \<noteq> []" using xs by simp
  obtain e where e: "process_pdfs latin1 leer listado = Completado e"
    using process_ok [OF ok ne] by blast
  have fis: "filter (es_fiscal leer) (archivos_pdf latin1 listado) = [u ''a.pdf'', u ''B.PDF'']"
    unfolding xs by (simp add: es_fiscal_def leer_def is_fiscal_def marca_fiscal_def u_def)
  from records_in_order [OF e]
  have a: "map (\<lambda>r. dict_get r (u ''Archivo'')) (resultados e) =
             map Inr (filter (es_fiscal leer) (archivos_pdf latin1 listado))"
    and b: "\<forall>r \<in> set (resultados e). map fst r = u ''Archivo'' # map fst patrones"
    by blast+
  have "map (\<lambda>r. dict_get r (u ''Archivo'')) (resultados e) = [Inr (u ''a.pdf''), Inr (u ''B.PDF'')]"
    using a unfolding fis by simp
  then have "\<exists>e. process_pdfs latin1 leer listado = Completado e \<and>
        map (\<lambda>r. dict_get r (u ''Archivo'')) (resultados e) = [Inr (u ''a.pdf''), Inr (u ''B.PDF'')] \<and>
        list_all (\<lambda>r. map fst r = u ''Archivo'' # map fst patrones) (resultados e)"
    using e b by (auto simp: list_all_iff)
  then show ?thesis unfolding leer_def listado_def .
qed

section \<open>The candidates\<close>

text \<open>
  With the table of the code points below U+0100, a name is a candidate exactly when it
  ends with a dot and the letters p, d, f, each in either case.
\<close>

lemma pdf_suffix_latin1:
  "endswith (lower latin1 f) (u ''.pdf'') \<longleftrightarrow>
     (\<exists>stem a b c. f = stem @ [46, a, b, c] \<and> (a = 112 \<or> a = 80) \<and> (b = 100 \<or> b = 68) \<and>
        (c = 102 \<or> c = 70))"
proof -
  define g :: "nat \<Rightarrow> nat" where
    "g = (\<lambda>c. if (65 \<le> c \<and> c \<le> 90) \<or> (192 \<le> c \<and> c \<le> 214) \<or> (216 \<le> c \<and> c \<le> 222)
               then c + 32 else c)"
  have low: "lower latin1 f = map g f" by (simp add: latin1_def g_def)
  have g46: "g x = 46 \<longleftrightarrow> x = 46" for x by (auto simp: g_def)
  have g112: "g x = 112 \<longleftrightarrow> x = 112 \<or> x = 80" for x by (auto simp: g_def)
  have g100: "g x = 100 \<longleftrightarrow> x = 100 \<or> x = 68" for x by (auto simp: g_def)
  have g102: "g x = 102 \<longleftrightarrow> x = 102 \<or> x = 70" for x by (auto simp: g_def)
  have "endswith (lower latin1 f) (u ''.pdf'') \<longleftrightarrow> (\<exists>zs. map g f = zs @ [46, 112, 100, 102])"
    by (simp add: endswith_def suffix_def low u_def)
  also have "\<dots> \<longleftrightarrow> (\<exists>stem w a b c. f = stem @ [w, a, b, c] \<and> g w = 46 \<and> g a = 112 \<and>
      g b = 100 \<and> g c = 102)"
  proof
    assume "\<exists>zs. map g f = zs @ [46, 112, 100, 102]"
    then obtain us vs where "f = us @ vs" "map g vs = [46, 112, 100, 102]"
      by (auto simp: map_eq_append_conv)
    then show "\<exists>stem w a b c. f = stem @ [w, a, b, c] \<and> g w = 46 \<and> g a = 112 \<and>
      g b = 100 \<and> g c = 102"
      by (auto simp: map_eq_Cons_conv)
  next
    assume "\<exists>stem w a b c. f = stem @ [w, a, b, c] \<and> g w = 46 \<and> g a = 112 \<and>
      g b = 100 \<and> g c = 102"
    then show "\<exists>zs. map g f = zs @ [46, 112, 100, 102]" by auto
  qed
  also have "\<dots> \<longleftrightarrow> (\<exists>stem a b c. f = stem @ [46, a, b, c] \<and> (a = 112 \<or> a = 80) \<and>
      (b = 100 \<or> b = 68) \<and> (c = 102 \<or> c = 70))"
    unfolding g46 g112 g100 g102 by auto
  finally show ?thesis .
qed

text \<open>
  Claim C10. The candidates are the names of the listing whose lower-case form ends with
  \<open>.pdf\<close>. However the loop ends, every file handed to \<open>get_text\<close> is such a name, every
  Record carries such a name, and the total of every progress report is the number of
  such names.
\<close>

theorem only_pdf_files:
  assumes "process_pdfs U leer listado = Completado e \<or>
           process_pdfs U leer listado = Abortado err e"
  shows "(\<forall>f \<in> set (leidos e). f \<in> set listado \<and> endswith (lower U f) (u ''.pdf'')) \<and>
         (\<forall>r \<in> set (resultados e). \<exists>f \<in> set listado.
             endswith (lower U f) (u ''.pdf'') \<and> dict_get r (u ''Archivo'') = Inr f) \<and>
         (\<forall>x \<in> set (progreso e).
             snd x = length (filter (\<lambda>f. endswith (lower U f) (u ''.pdf'')) listado))"
proof -
  define xs where "xs = archivos_pdf U listado"
  have cand: "f \<in> set listado \<and> endswith (lower U f) (u ''.pdf'')" if "f \<in> set xs" for f
    using that unfolding xs_def archivos_pdf_def by simp
  have len: "length xs = length (filter (\<lambda>f. endswith (lower U f) (u ''.pdf'')) listado)"
    unfolding xs_def archivos_pdf_def by simp
  have ne: "xs \<noteq> []"
    using assms unfolding xs_def process_pdfs_def Let_def by (auto split: if_splits)
  have "\<exists>ys. set ys \<subseteq> set xs \<and> set (leidos e) \<subseteq> set xs \<and>
          resultados e = map (registro_de U leer) (filter (es_fiscal leer) ys) \<and>
          (\<forall>x \<in> set (progreso e). snd x = length xs)"
  proof (cases "\<forall>f \<in> set xs. \<exists>t. leer f = Inr t")
    case True
    then have "process_pdfs U leer listado =
       Completado \<lparr>leidos = xs,
         resultados = map (registro_de U leer) (filter (es_fiscal leer) xs),
         progreso = map (\<lambda>i. (i, length xs)) [1..<Suc (length xs)]\<rparr>"
      using ne unfolding xs_def by (intro process_ok) auto
    then have "e = \<lparr>leidos = xs,
         resultados = map (registro_de U leer) (filter (es_fiscal leer) xs),
         progreso = map (\<lambda>i. (i, length xs)) [1..<Suc (length xs)]\<rparr>"
      using assms by auto
    then have "set xs \<subseteq> set xs \<and> set (leidos e) \<subseteq> set xs \<and>
          resultados e = map (registro_de U leer) (filter (es_fiscal leer) xs) \<and>
          (\<forall>x \<in> set (progreso e). snd x = length xs)"
      by (auto simp del: upt_Suc)
    then show ?thesis by blast
  next
    case False
    then obtain pre f post err' where d: "xs = pre @ f # post"
      "\<forall>g \<in> set pre. \<exists>t. leer g = Inr t" "leer f = Inl err'"
      using first_failure [of xs leer] by blast
    then obtain e' where e': "process_pdfs U leer listado = Abortado err' e'"
      "leidos e' = pre @ [f]"
      "resultados e' = map (registro_de U leer) (filter (es_fiscal leer) pre)"
      "length (progreso e') = length pre"
      "\<forall>x \<in> set (progreso e'). snd x = length (pre @ f # post)"
      using process_abort [of U listado pre f post leer err'] unfolding xs_def by blast
    have ee: "e = e'" using assms e'(1) by auto
    have "set pre \<subseteq> set xs \<and> set (leidos e) \<subseteq> set xs \<and>
          resultados e = map (registro_de U leer) (filter (es_fiscal leer) pre)"
      using d(1) e' ee by auto
    moreover have "\<forall>x \<in> set (progreso e). snd x = length xs"
      using e'(5) ee d(1) by simp
    ultimately show ?thesis by blast
  qed
  then obtain ys where ys: "set ys \<subseteq> set xs" "set (leidos e) \<subseteq> set xs"
    "resultados e = map (registro_de U leer) (filter (es_fiscal leer) ys)"
    "\<forall>x \<in> set (progreso e). snd x = length xs" by blast
  have "\<exists>f \<in> set listado. endswith (lower U f) (u ''.pdf'') \<and> dict_get r (u ''Archivo'') = Inr f"
    if "r \<in> set (resultados e)" for r
  proof -
    from that ys(3) obtain f where "f \<in> set ys" "dict_get r (u ''Archivo'') = Inr f"
      using registros_shape [of r U leer ys] by auto
    then show ?thesis using cand ys(1) by blast
  qed
  then show ?thesis using ys(2,4) cand len by auto
qed


theorem only_pdf_files_witness:
  "\<exists>e. process_pdfs latin1 (\<lambda>f. Inr (u ''hola'')) [u ''a.pdf'', u ''notas.txt'', u ''B.PDF'']
          = Completado e \<and>
        leidos e = [u ''a.pdf'', u ''B.PDF''] \<and> u ''notas.txt'' \<notin> set (leidos e) \<and>
        resultados e = [] \<and> list_all (\<lambda>x. snd x = 2) (progreso e)"
proof -
  define leer :: "str \<Rightarrow> error + str" where "leer = (\<lambda>f. Inr (u ''hola''))"
  define listado where "listado = [u ''a.pdf'', u ''notas.txt'', u ''B.PDF'']"
  have xs: "archivos_pdf latin1 listado = [u ''a.pdf'', u ''B.PDF'']"
    unfolding listado_def by (simp add: eval_batch)
  have ok: "\<forall>f \<in> set (archivos_pdf latin1 listado). \<exists>t. leer f = Inr t"
    by (simp add: leer_def)
  have ne: "archivos_pdf latin1 listado \<noteq> []" using xs by simp
  have nf: "filter (es_fiscal leer) (archivos_pdf latin1 listado) = []"
    unfolding xs by (simp add: es_fiscal_def leer_def is_fiscal_def marca_fiscal_def u_def)
  obtain e where e: "process_pdfs latin1 leer listado = Completado e"
    and l: "leidos e = archivos_pdf latin1 listado"
    and r: "resultados e = map (registro_de latin1 leer)
              (filter (es_fiscal leer) (archivos_pdf latin1 listado))"
    using process_ok [OF ok ne] by simp
  have len: "length (filter (\<lambda>f. endswith (lower latin1 f) (u ''.pdf'')) listado) = 2"
    using xs unfolding archivos_pdf_def by simp
  have no: "\<not> endswith (lower latin1 (u ''notas.txt'')) (u ''.pdf'')"
    by (simp add: eval_batch)
  from only_pdf_files [of latin1 leer listado e FileDataError] e
  have a: "\<forall>f \<in> set (leidos e). f \<in> set listado \<and> endswith (lower latin1 f) (u ''.pdf'')"
    and b: "\<forall>x \<in> set (progreso e).
             snd x = length (filter (\<lambda>f. endswith (lower latin1 f) (u ''.pdf'')) listado)"
    by blast+
  have "u ''notas.txt'' \<notin> set (leidos e)" using a no by blast
  moreover have "list_all (\<lambda>x. snd x = 2) (progreso e)" using b len by (simp add: list_all_iff)
  moreover have "leidos e = [u ''a.pdf'', u ''B.PDF'']" using l xs by simp
  moreover have "resultados e = []" using r nf by simp
  ultimately have "\<exists>e. process_pdfs latin1 leer listado = Completado e \<and>
        leidos e = [u ''a.pdf'', u ''B.PDF''] \<and> u ''notas.txt'' \<notin> set (leidos e) \<and>
        resultados e = [] \<and> list_all (\<lambda>x. snd x = 2) (progreso e)"
    using e by blast
  then show ?thesis unfolding leer_def listado_def .
qed

section \<open>A file that cannot be read\<close>

text \<open>
  Claim C6, as amended. Nothing in \<open>process_pdfs\<close> catches an exception: when the text of
  a candidate cannot be extracted, the exception of \<open>get_text\<close> leaves \<open>process_pdfs\<close> at
  that file. The candidates before it have been read and the fiscal ones among them have
  their Records in the list so far; no later candidate is read, and the loop does not
  reach its end.
\<close>

theorem extraction_failure_aborts:
  assumes "archivos_pdf U listado = pre @ f # post"
    and "\<forall>g \<in> set pre. \<exists>t. leer g = Inr t" and "leer f = Inl err"
  shows "\<exists>e. process_pdfs U leer listado = Abortado err e \<and> leidos e = pre @ [f] \<and>
           resultados e = map (registro_de U leer) (filter (es_fiscal leer) pre) \<and>
           length (progreso e) = length pre"
  using process_abort [OF assms] by blast

theorem extraction_failure_aborts_witness:
  "archivos_pdf latin1 [u ''x.pdf'', u ''notas.txt'', u ''b.pdf'', u ''c.pdf'']
     = [u ''x.pdf''] @ u ''b.pdf'' # [u ''c.pdf''] \<and>
   (\<exists>e. process_pdfs latin1
           (\<lambda>f. if f = u ''b.pdf'' then Inl FileNotFoundError else Inr marca_fiscal)
           [u ''x.pdf'', u ''notas.txt'', u ''b.pdf'', u ''c.pdf'']
         = Abortado FileNotFoundError e \<and>
       leidos e = [u ''x.pdf'', u ''b.pdf''] \<and> length (resultados e) = 1 \<and>
       length (progreso e) = 1)"
proof -
  define leer :: "str \<Rightarrow> error + str" where
    "leer = (\<lambda>f. if f = u ''b.pdf'' then Inl FileNotFoundError else Inr marca_fiscal)"
  define listado where "listado = [u ''x.pdf'', u ''notas.txt'', u ''b.pdf'', u ''c.pdf'']"
  have xs: "archivos_pdf latin1 listado = [u ''x.pdf''] @ u ''b.pdf'' # [u ''c.pdf'']"
    unfolding listado_def by (simp add: eval_batch)
  have ok: "\<forall>g \<in> set [u ''x.pdf'']. \<exists>t. leer g = Inr t" by (simp add: leer_def u_def)
  have bad: "leer (u ''b.pdf'') = Inl FileNotFoundError" by (simp add: leer_def)
  have fis: "filter (es_fiscal leer) [u ''x.pdf''] = [u ''x.pdf'']"
    by (simp add: es_fiscal_def leer_def is_fiscal_def marca_fiscal_def u_def)
  from extraction_failure_aborts [of latin1 listado "[u ''x.pdf'']" "u ''b.pdf''"
      "[u ''c.pdf'']" leer FileNotFoundError, OF xs ok bad]
  obtain e where "process_pdfs latin1 leer listado = Abortado FileNotFoundError e"
    and "leidos e = [u ''x.pdf''] @ [u ''b.pdf'']"
    and "resultados e = map (registro_de latin1 leer) (filter (es_fiscal leer) [u ''x.pdf''])"
    and "length (progreso e) = length [u ''x.pdf'']"
    by blast
  then have "\<exists>e. process_pdfs latin1 leer listado = Abortado FileNotFoundError e \<and>
       leidos e = [u ''x.pdf'', u ''b.pdf''] \<and> length (resultados e) = 1 \<and>
       length (progreso e) = 1"
    unfolding fis by auto
  then show ?thesis using xs unfolding leer_def listado_def by blast
qed

text \<open>
  Claim C6 as stated fails: with two candidates of which the first cannot be read, the
  exception ends the batch at the first; the second, a fiscal document, is never read
  and has no Record.
\<close>

theorem extraction_failure_stops_batch:
  "es_fiscal (\<lambda>f. if f = u ''a.pdf'' then Inl FileDataError else Inr marca_fiscal) (u ''b.pdf'') \<and>
   process_pdfs latin1 (\<lambda>f. if f = u ''a.pdf'' then Inl FileDataError else Inr marca_fiscal)
     [u ''a.pdf'', u ''b.pdf'']
     = Abortado FileDataError \<lparr>leidos = [u ''a.pdf''], resultados = [], progreso = []\<rparr>"
proof -
  define leer :: "str \<Rightarrow> error + str" where
    "leer = (\<lambda>f. if f = u ''a.pdf'' then Inl FileDataError else Inr marca_fiscal)"
  define listado where "listado = [u ''a.pdf'', u ''b.pdf'']"
  have xs: "archivos_pdf latin1 listado = [] @ u ''a.pdf'' # [u ''b.pdf'']"
    unfolding listado_def by (simp add: eval_batch)
  have bad: "leer (u ''a.pdf'') = Inl FileDataError" by (simp add: leer_def)
  have fis: "es_fiscal leer (u ''b.pdf'')"
    by (simp add: es_fiscal_def leer_def is_fiscal_def marca_fiscal_def u_def)
  obtain e where e: "process_pdfs latin1 leer listado = Abortado FileDataError e"
    and "leidos e = [] @ [u ''a.pdf'']" and "resultados e = []" and "length (progreso e) = 0"
    using process_abort [of latin1 listado "[]" "u ''a.pdf''" "[u ''b.pdf'']" leer FileDataError]
      xs bad by auto
  then have "e = \<lparr>leidos = [u ''a.pdf''], resultados = [], progreso = []\<rparr>" by simp
  then have "es_fiscal leer (u ''b.pdf'') \<and>
    process_pdfs latin1 leer listado
      = Abortado FileDataError \<lparr>leidos = [u ''a.pdf''], resultados = [], progreso = []\<rparr>"
    using e fis by simp
  then show ?thesis unfolding leer_def listado_def .
qed

end
